theory Spec2Isabelle
  imports Main "HOL-Library.Word"
begin

unbundle bit_operations_syntax

section \<open>The configuration parser of slant (slant-config.c)\<close>

text \<open>
  The development embeds the recursive-descent parser of \<^verbatim>\<open>slant-config.c\<close>:
  the token cursor, the statement parsers for \<^verbatim>\<open>waittime\<close>, \<^verbatim>\<open>servers\<close> and
  \<^verbatim>\<open>layout\<close>, the box sub-parser, the command-line fallback and the driver
  \<^verbatim>\<open>config_parse\<close>.

  Conventions of the embedding.
  \<^item> A C function \<^verbatim>\<open>int f(struct parse *p, struct config *cfg)\<close> that returns 1 on
    success and 0 after logging a diagnostic becomes a function into a sum: \<open>Inr\<close>
    carries the state after a return of 1, \<open>Inl\<close> carries the kind of the diagnostic
    together with the state that the C function leaves behind when it returns 0. The
    state after a failure matters: the driver decides on the final cursor position, not
    on the return value of the statement parser.
  \<^item> A failed \<^verbatim>\<open>assert\<close> and a read of \<^verbatim>\<open>p->toks[p->pos]\<close> with
    \<^verbatim>\<open>p->pos >= p->toksz\<close> are the diagnostics \<open>AssertionFailure\<close> and
    \<open>OutOfBoundsRead\<close>; the driver never turns them into a success.
  \<^item> \<^verbatim>\<open>toksz\<close> is the length of the token list, \<^verbatim>\<open>urlsz\<close> the length of
    \<open>urls\<close>, \<^verbatim>\<open>boxsz\<close> the length of \<open>box\<close>. The field \<^verbatim>\<open>fn\<close> of
    \<^verbatim>\<open>struct parse\<close> is used in messages only and is left out.
  \<^item> Memory allocation (\<^verbatim>\<open>reallocarray\<close>, \<^verbatim>\<open>calloc\<close>, \<^verbatim>\<open>strdup\<close>,
    \<^verbatim>\<open>malloc\<close>) is taken to succeed; the branches for a \<^verbatim>\<open>NULL\<close> result are
    outside the model.
\<close>

subsection \<open>Data\<close>

datatype error =
    UnexpectedEOF
  | UnexpectedToken
  | UnknownToken
  | InvalidRange
  | EmptyServerList
  | DuplicateSection
  | IOFailure
  | AssertionFailure
  | OutOfBoundsRead
  | CursorMismatch

record parse =
  toks :: "string list"
  pos :: nat

definition toksz :: "parse \<Rightarrow> nat" where
  "toksz p = length (toks p)"

text \<open>
  The structures \<^verbatim>\<open>struct nconfig\<close>, \<^verbatim>\<open>struct drawbox\<close>, \<^verbatim>\<open>struct draw\<close> and
  \<^verbatim>\<open>struct config\<close> are declared in \<^verbatim>\<open>slant.h\<close>; the records below have the
  fields that \<^verbatim>\<open>slant-config.c\<close> reads and writes. A \<^verbatim>\<open>NULL\<close> pointer
  \<^verbatim>\<open>cfg->draw\<close> is \<open>None\<close>.
\<close>

record nconfig =
  url :: string
  waittime :: int

datatype drawcat =
    DRAWCAT_CPU
  | DRAWCAT_MEM
  | DRAWCAT_NET
  | DRAWCAT_DISC
  | DRAWCAT_LINK
  | DRAWCAT_HOST
  | DRAWCAT_PROCS
  | DRAWCAT_RPROCS
  | DRAWCAT_FILES

record drawbox =
  cat :: drawcat
  args :: "32 word"

record draw =
  header :: bool
  errlog :: int
  box :: "drawbox list"

record config =
  urls :: "nconfig list"
  waittime :: int
  draw :: "draw option"

text \<open>
  The option macros (\<^verbatim>\<open>CPU_QMIN\<close>, \<^verbatim>\<open>LINK_IP\<close>, \<^verbatim>\<open>HOST_ACCESS\<close>, ...) are
  defined in \<^verbatim>\<open>slant.h\<close>. Their values are a parameter \<open>fl\<close> of the parser:
  \<open>fl c k\<close> is the value of the macro of category \<open>c\<close> and option \<open>k\<close>, so that
  \<open>fl DRAWCAT_CPU OPT_QMIN_BARS\<close> stands for \<^verbatim>\<open>CPU_QMIN_BARS\<close> and
  \<open>fl DRAWCAT_HOST OPT_ACCESS\<close> for \<^verbatim>\<open>HOST_ACCESS\<close>.
\<close>

datatype opt = OPT_QMIN_BARS | OPT_QMIN | OPT_MIN | OPT_HOUR | OPT_DAY | OPT_WEEK | OPT_YEAR | OPT_IP | OPT_STATE | OPT_ACCESS

type_synonym flags = "drawcat \<Rightarrow> opt \<Rightarrow> 32 word"

text \<open>
  Modelled from the spec: the values of the option macros, which \<^verbatim>\<open>slant.h\<close>
  defines and which are not among the sources. The spec says that "each option keyword
  sets exactly one bit" and that the host category gets "a fixed access flag". In this
  table the keywords \<^verbatim>\<open>qmin_bars qmin min hour day week year\<close> take the bits 0 to 6
  and \<^verbatim>\<open>ip state access\<close> the bits 0 to 2, in every category. The theorems about the
  parser hold for every table \<open>fl\<close>; this one is used where a concrete table is needed.
\<close>

definition one_bit_flags :: flags where
  "one_bit_flags c k =
     (case k of
        OPT_QMIN_BARS \<Rightarrow> 1 | OPT_QMIN \<Rightarrow> 2 | OPT_MIN \<Rightarrow> 4 | OPT_HOUR \<Rightarrow> 8
      | OPT_DAY \<Rightarrow> 16 | OPT_WEEK \<Rightarrow> 32 | OPT_YEAR \<Rightarrow> 64
      | OPT_IP \<Rightarrow> 1 | OPT_STATE \<Rightarrow> 2 | OPT_ACCESS \<Rightarrow> 4)"

subsection \<open>The token cursor\<close>

definition tok_unknown :: "parse \<Rightarrow> error" where
  "tok_unknown p = (if pos p < toksz p then UnknownToken else OutOfBoundsRead)"

definition tok_nadv :: "parse \<Rightarrow> error + unit" where
  "tok_nadv p = (if pos p \<ge> toksz p then Inl UnexpectedEOF else Inr ())"

definition tok_expect :: "parse \<Rightarrow> string \<Rightarrow> error + unit" where
  "tok_expect p v =
     (case tok_nadv p of
        Inl e \<Rightarrow> Inl e
      | Inr _ \<Rightarrow> if toks p ! pos p = v then Inr () else Inl UnexpectedToken)"

definition tok_expect_adv :: "parse \<Rightarrow> string \<Rightarrow> error + parse" where
  "tok_expect_adv p v =
     (case tok_expect p v of
        Inl e \<Rightarrow> Inl e
      | Inr _ \<Rightarrow> Inr (p\<lparr>pos := pos p + 1\<rparr>))"

definition tok_eq :: "parse \<Rightarrow> string \<Rightarrow> error + bool" where
  "tok_eq p v =
     (if pos p < toksz p then Inr (toks p ! pos p = v) else Inl AssertionFailure)"

definition tok_eq_adv :: "parse \<Rightarrow> string \<Rightarrow> error + bool \<times> parse" where
  "tok_eq_adv p v =
     (if pos p < toksz p
      then (if toks p ! pos p = v then Inr (True, p\<lparr>pos := pos p + 1\<rparr>) else Inr (False, p))
      else Inl AssertionFailure)"

text \<open>\<^verbatim>\<open>tok_adv\<close> moves the cursor also when it then reports the end of the input.\<close>

definition tok_adv :: "parse \<Rightarrow> parse \<times> (error + unit)" where
  "tok_adv p = (let p' = p\<lparr>pos := pos p + 1\<rparr> in (p', tok_nadv p'))"

subsection \<open>strtonum\<close>

text \<open>
  Modelled from the spec: \<^verbatim>\<open>strtonum\<close> is a function of the C library and is not
  among the sources. The spec says that the number "must parse as an integer" in the
  given range, "else fails with InvalidRange". The model follows the library function:
  \<^verbatim>\<open>strtoll\<close> in base 10 (white space, an optional sign, decimal digits; the value
  clamped to \<^verbatim>\<open>long long\<close> with \<^verbatim>\<open>ERANGE\<close>), then the checks of
  \<^verbatim>\<open>strtonum\<close>: no conversion or trailing characters are "invalid", a value below
  \<open>minval\<close> is "too small", a value above \<open>maxval\<close> is "too large".
\<close>

text \<open>
  The limits of \<^verbatim>\<open>limits.h\<close> for a 32-bit \<^verbatim>\<open>int\<close> and a 64-bit
  \<^verbatim>\<open>long long\<close>.
\<close>

definition INT_MAX :: int where
  "INT_MAX = 2147483647"

definition LLONG_MAX :: int where
  "LLONG_MAX = 9223372036854775807"

definition LLONG_MIN :: int where
  "LLONG_MIN = - 9223372036854775808"

definition isspace :: "char \<Rightarrow> bool" where
  "isspace c = (c \<in> {CHR '' '', CHR 0x09, CHR 0x0A, CHR 0x0B, CHR 0x0C, CHR 0x0D})"

definition isdigit :: "char \<Rightarrow> bool" where
  "isdigit c = (48 \<le> (of_char c :: nat) \<and> (of_char c :: nat) \<le> 57)"

definition digits_value :: "string \<Rightarrow> int" where
  "digits_value ds = foldl (\<lambda>acc c. acc * 10 + (int (of_char c) - 48)) 0 ds"

text \<open>
  The integer that the longest numeric prefix denotes, and the rest of the string
  (\<^verbatim>\<open>*endptr\<close>); \<open>None\<close> when there is no digit to convert.
\<close>

definition decimal_prefix :: "string \<Rightarrow> (int \<times> string) option" where
  "decimal_prefix numstr =
     (let s = dropWhile isspace numstr;
          neg = (s \<noteq> [] \<and> hd s = CHR ''-'');
          s' = (if s \<noteq> [] \<and> (hd s = CHR ''-'' \<or> hd s = CHR ''+'') then tl s else s);
          ds = takeWhile isdigit s';
          ep = dropWhile isdigit s'
      in if ds = [] then None
         else Some (if neg then - digits_value ds else digits_value ds, ep))"

text \<open>\<^verbatim>\<open>strtoll\<close>: the clamped value, the rest, and whether \<^verbatim>\<open>errno\<close> is \<^verbatim>\<open>ERANGE\<close>.\<close>

definition strtoll :: "string \<Rightarrow> (int \<times> string \<times> bool) option" where
  "strtoll numstr =
     (case decimal_prefix numstr of
        None \<Rightarrow> None
      | Some (v, ep) \<Rightarrow>
          if v > LLONG_MAX then Some (LLONG_MAX, ep, True)
          else if v < LLONG_MIN then Some (LLONG_MIN, ep, True)
          else Some (v, ep, False))"

datatype strtonum_error = INVALID | TOOSMALL | TOOLARGE

definition strtonum :: "string \<Rightarrow> int \<Rightarrow> int \<Rightarrow> strtonum_error + int" where
  "strtonum numstr minval maxval =
     (if minval > maxval then Inl INVALID
      else
        (case strtoll numstr of
           None \<Rightarrow> Inl INVALID
         | Some (ll, ep, erange) \<Rightarrow>
             if ep \<noteq> [] then Inl INVALID
             else if (ll = LLONG_MIN \<and> erange) \<or> ll < minval then Inl TOOSMALL
             else if (ll = LLONG_MAX \<and> erange) \<or> ll > maxval then Inl TOOLARGE
             else Inr ll))"

subsection \<open>The waittime statement\<close>

text \<open>
  \<^verbatim>\<open>cfg->waittime\<close> is assigned the result of \<^verbatim>\<open>strtonum\<close> before the error is
  tested; on an error that result is 0.
\<close>

definition parse_waittime :: "parse \<Rightarrow> config \<Rightarrow> error \<times> parse \<times> config + parse \<times> config" where
  "parse_waittime p cfg =
     (if pos p < toksz p then
        (case strtonum (toks p ! pos p) 15 INT_MAX of
           Inl _ \<Rightarrow> Inl (InvalidRange, p, cfg\<lparr>waittime := 0\<rparr>)
         | Inr n \<Rightarrow>
             (case tok_adv p of
                (p1, Inl e) \<Rightarrow> Inl (e, p1, cfg\<lparr>waittime := n\<rparr>)
              | (p1, Inr _) \<Rightarrow>
                  (case tok_expect_adv p1 '';'' of
                     Inl e \<Rightarrow> Inl (e, p1, cfg\<lparr>waittime := n\<rparr>)
                   | Inr p2 \<Rightarrow> Inr (p2, cfg\<lparr>waittime := n\<rparr>))))
      else Inl (AssertionFailure, p, cfg))"

subsection \<open>The servers statement\<close>

text \<open>
  The loop of \<^verbatim>\<open>parse_server_args\<close>; its state is the cursor and the local
  variable \<^verbatim>\<open>waittime\<close>.
\<close>

function server_args_loop :: "parse \<Rightarrow> int \<Rightarrow> error \<times> parse + parse \<times> int" where
  "server_args_loop p wt =
     (if pos p < toksz p then
        (case tok_eq p ''}'' of
           Inl e \<Rightarrow> Inl (e, p)
         | Inr closing \<Rightarrow>
             if closing then Inr (p, wt)
             else
               (case tok_eq_adv p ''waittime'' of
                  Inl e \<Rightarrow> Inl (e, p)
                | Inr (matched, p1) \<Rightarrow>
                    if matched then
                      (if pos p1 < toksz p1 then
                         (case strtonum (toks p1 ! pos p1) 15 INT_MAX of
                            Inl _ \<Rightarrow> Inl (InvalidRange, p1)
                          | Inr w \<Rightarrow>
                              (case tok_adv p1 of
                                 (p2, Inl e) \<Rightarrow> Inl (e, p2)
                               | (p2, Inr _) \<Rightarrow>
                                   (case tok_eq_adv p2 '';'' of
                                      Inl e \<Rightarrow> Inl (e, p2)
                                    | Inr (_, p3) \<Rightarrow> server_args_loop p3 w)))
                       else Inl (OutOfBoundsRead, p1))
                    else Inl (tok_unknown p, p)))
      else Inr (p, wt))"
  by pat_completeness auto
termination
  by (relation "measure (\<lambda>(p, wt). toksz p - pos p)")
     (auto simp: tok_eq_adv_def tok_adv_def tok_nadv_def toksz_def Let_def split: if_splits)

text \<open>
  The loop \<^verbatim>\<open>for (i = 0; i < count; i++) cfg->urls[cfg->urlsz - 1 - i].waittime = waittime\<close>.
\<close>

function set_waittimes :: "nat \<Rightarrow> nat \<Rightarrow> int \<Rightarrow> nconfig list \<Rightarrow> nconfig list" where
  "set_waittimes i count wt us =
     (if i < count
      then set_waittimes (i + 1) count wt
             (us[length us - 1 - i := (us ! (length us - 1 - i))\<lparr>nconfig.waittime := wt\<rparr>])
      else us)"
  by pat_completeness auto
termination
  by (relation "measure (\<lambda>(i, count, wt, us). count - i)") auto

definition parse_server_args ::
  "parse \<Rightarrow> config \<Rightarrow> nat \<Rightarrow> error \<times> parse \<times> config + parse \<times> config" where
  "parse_server_args p cfg count =
     (case server_args_loop p 0 of
        Inl (e, p') \<Rightarrow> Inl (e, p', cfg)
      | Inr (p1, wt) \<Rightarrow>
          (case tok_expect_adv p1 ''}'' of
             Inl e \<Rightarrow> Inl (e, p1, cfg)
           | Inr p2 \<Rightarrow>
               if length (urls cfg) \<ge> count then
                 (if wt = 0 then Inr (p2, cfg)
                  else Inr (p2, cfg\<lparr>urls := set_waittimes 0 count wt (urls cfg)\<rparr>))
               else Inl (AssertionFailure, p2, cfg)))"

text \<open>
  The loop of \<^verbatim>\<open>parse_servers\<close>: every token before \<^verbatim>\<open>;\<close> or \<^verbatim>\<open>{\<close> is
  appended as a new, zeroed entry whose \<^verbatim>\<open>url\<close> is a copy of the token.
\<close>

function servers_loop ::
  "parse \<Rightarrow> config \<Rightarrow> nat \<Rightarrow> error \<times> parse \<times> config + parse \<times> config \<times> nat" where
  "servers_loop p cfg count =
     (if pos p < toksz p then
        (case tok_eq p '';'' of
           Inl e \<Rightarrow> Inl (e, p, cfg)
         | Inr semi \<Rightarrow>
             if semi then Inr (p, cfg, count)
             else
               (case tok_eq p ''{'' of
                  Inl e \<Rightarrow> Inl (e, p, cfg)
                | Inr brace \<Rightarrow>
                    if brace then Inr (p, cfg, count)
                    else servers_loop (p\<lparr>pos := pos p + 1\<rparr>)
                           (cfg\<lparr>urls := urls cfg @ [\<lparr>url = toks p ! pos p, waittime = 0\<rparr>]\<rparr>)
                           (count + 1)))
      else Inr (p, cfg, count))"
  by pat_completeness auto
termination
  by (relation "measure (\<lambda>(p, cfg, count). toksz p - pos p)") (auto simp: toksz_def)

definition parse_servers :: "parse \<Rightarrow> config \<Rightarrow> error \<times> parse \<times> config + parse \<times> config" where
  "parse_servers p cfg =
     (case servers_loop p cfg 0 of
        Inl f \<Rightarrow> Inl f
      | Inr (p1, cfg1, count) \<Rightarrow>
          if count = 0 then Inl (EmptyServerList, p1, cfg1)
          else
            (case tok_nadv p1 of
               Inl e \<Rightarrow> Inl (e, p1, cfg1)
             | Inr _ \<Rightarrow>
                 (case tok_eq_adv p1 ''{'' of
                    Inl e \<Rightarrow> Inl (e, p1, cfg1)
                  | Inr (brace, p2) \<Rightarrow>
                      if brace then
                        (case parse_server_args p2 cfg1 count of
                           Inl f \<Rightarrow> Inl f
                         | Inr (p3, cfg3) \<Rightarrow>
                             (case tok_expect p3 '';'' of
                                Inl e \<Rightarrow> Inl (e, p3, cfg3)
                              | Inr _ \<Rightarrow> Inr (p3\<lparr>pos := pos p3 + 1\<rparr>, cfg3)))
                      else Inr (p2\<lparr>pos := pos p2 + 1\<rparr>, cfg1))))"

subsection \<open>The cursor only moves forward\<close>

lemma tok_eq_Inr:
  "tok_eq p v = Inr b \<longleftrightarrow> pos p < toksz p \<and> b = (toks p ! pos p = v)"
  by (auto simp: tok_eq_def)

lemma tok_eq_adv_Inr:
  "tok_eq_adv p v = Inr (b, p') \<longleftrightarrow>
     pos p < toksz p \<and> b = (toks p ! pos p = v) \<and> p' = (if b then p\<lparr>pos := pos p + 1\<rparr> else p)"
  by (auto simp: tok_eq_adv_def)

lemma tok_expect_adv_Inr:
  "tok_expect_adv p v = Inr p' \<longleftrightarrow>
     pos p < toksz p \<and> toks p ! pos p = v \<and> p' = p\<lparr>pos := pos p + 1\<rparr>"
  by (auto simp: tok_expect_adv_def tok_expect_def tok_nadv_def split: sum.splits)

lemma tok_expect_Inr:
  "tok_expect p v = Inr u \<longleftrightarrow> pos p < toksz p \<and> toks p ! pos p = v"
  by (auto simp: tok_expect_def tok_nadv_def split: sum.splits)

lemma tok_adv_eq:
  "tok_adv p = (p', r) \<longleftrightarrow>
     p' = p\<lparr>pos := pos p + 1\<rparr> \<and> r = (if pos p + 1 \<ge> toksz p then Inl UnexpectedEOF else Inr ())"
  by (auto simp: tok_adv_def tok_nadv_def Let_def toksz_def)

lemma toksz_pos_update [simp]: "toksz (p\<lparr>pos := n\<rparr>) = toksz p"
  by (simp add: toksz_def)

text \<open>\<open>advanced p p'\<close>: the same tokens, and the cursor of \<open>p'\<close> is not before that of \<open>p\<close>.\<close>

definition advanced :: "parse \<Rightarrow> parse \<Rightarrow> bool" where
  "advanced p p' \<longleftrightarrow> toks p' = toks p \<and> pos p \<le> pos p'"

lemma advanced_refl [simp]: "advanced p p"
  by (simp add: advanced_def)

lemma advanced_trans: "advanced p q \<Longrightarrow> advanced q r \<Longrightarrow> advanced p r"
  by (auto simp: advanced_def)

lemma advanced_step [simp]: "advanced p (p\<lparr>pos := pos p + n\<rparr>)"
  by (simp add: advanced_def)

lemma advanced_step_left: "advanced (p\<lparr>pos := pos p + n\<rparr>) q \<Longrightarrow> advanced p q"
  by (auto simp: advanced_def)

lemma advanced_toksz: "advanced p q \<Longrightarrow> toksz q = toksz p"
  by (simp add: advanced_def toksz_def)

declare server_args_loop.simps [simp del]
declare servers_loop.simps [simp del]
declare set_waittimes.simps [simp del]

text \<open>One turn of each loop, with the cursor primitives evaluated.\<close>

lemma server_args_loop_unfold:
  "server_args_loop p wt =
     (if pos p < toksz p then
        if toks p ! pos p = ''}'' then Inr (p, wt)
        else if toks p ! pos p = ''waittime'' then
          (if pos p + 1 < toksz p then
             (case strtonum (toks p ! (pos p + 1)) 15 INT_MAX of
                Inl _ \<Rightarrow> Inl (InvalidRange, p\<lparr>pos := pos p + 1\<rparr>)
              | Inr w \<Rightarrow>
                  if pos p + 2 < toksz p then
                    server_args_loop
                      (p\<lparr>pos := (if toks p ! (pos p + 2) = '';'' then pos p + 3 else pos p + 2)\<rparr>) w
                  else Inl (UnexpectedEOF, p\<lparr>pos := pos p + 2\<rparr>))
           else Inl (OutOfBoundsRead, p\<lparr>pos := pos p + 1\<rparr>))
        else Inl (UnknownToken, p)
      else Inr (p, wt))"
  by (subst server_args_loop.simps)
     (simp add: tok_eq_def tok_eq_adv_def tok_adv_def tok_nadv_def tok_unknown_def Let_def
           eval_nat_numeral split: sum.splits)

lemma server_args_loop_advanced:
  "server_args_loop p wt = Inr (p', wt') \<Longrightarrow> advanced p p'"
proof (induction "toksz p - pos p" arbitrary: p wt rule: less_induct)
  case less
  show ?case
  proof (cases "pos p < toksz p \<and> toks p ! pos p = ''waittime''")
    case False
    with less.prems show ?thesis
      by (subst (asm) server_args_loop_unfold) (auto split: if_splits)
  next
    case True
    define q where "q = p\<lparr>pos := (if toks p ! (pos p + 2) = '';'' then pos p + 3 else pos p + 2)\<rparr>"
    from less.prems True obtain w where rec: "server_args_loop q w = Inr (p', wt')"
      and b: "pos p + 2 < toksz p"
      unfolding q_def
      by (subst (asm) server_args_loop_unfold) (auto split: if_splits sum.splits)
    have "toksz q - pos q < toksz p - pos p"
      using b by (auto simp: q_def)
    from less.hyps[OF this rec] have "advanced q p'" .
    then show ?thesis
      by (auto simp: advanced_def q_def split: if_splits)
  qed
qed

text \<open>The tokens from the cursor up to the first \<^verbatim>\<open>;\<close> or \<^verbatim>\<open>{\<close>.\<close>

definition host_tokens :: "parse \<Rightarrow> string list" where
  "host_tokens p = takeWhile (\<lambda>t. t \<noteq> '';'' \<and> t \<noteq> ''{'') (drop (pos p) (toks p))"

definition new_entries :: "string list \<Rightarrow> nconfig list" where
  "new_entries hs = map (\<lambda>h. \<lparr>url = h, waittime = 0\<rparr>) hs"

lemma host_tokens_end [simp]: "\<not> pos p < toksz p \<Longrightarrow> host_tokens p = []"
  by (simp add: host_tokens_def toksz_def)

lemma host_tokens_step:
  "pos p < toksz p \<Longrightarrow>
   host_tokens p =
     (if toks p ! pos p \<noteq> '';'' \<and> toks p ! pos p \<noteq> ''{''
      then toks p ! pos p # host_tokens (p\<lparr>pos := pos p + 1\<rparr>) else [])"
  by (simp add: host_tokens_def toksz_def Cons_nth_drop_Suc [symmetric])

lemma servers_loop_unfold:
  "servers_loop p cfg count =
     (if pos p < toksz p \<and> toks p ! pos p \<noteq> '';'' \<and> toks p ! pos p \<noteq> ''{''
      then servers_loop (p\<lparr>pos := pos p + 1\<rparr>)
             (cfg\<lparr>urls := urls cfg @ [\<lparr>url = toks p ! pos p, waittime = 0\<rparr>]\<rparr>) (count + 1)
      else Inr (p, cfg, count))"
  by (subst servers_loop.simps) (simp add: tok_eq_def)

lemma servers_loop_eq:
  "servers_loop p cfg count =
     Inr (p\<lparr>pos := pos p + length (host_tokens p)\<rparr>,
          cfg\<lparr>urls := urls cfg @ new_entries (host_tokens p)\<rparr>,
          count + length (host_tokens p))"
proof (induction "toksz p - pos p" arbitrary: p cfg count rule: less_induct)
  case less
  show ?case
  proof (cases "pos p < toksz p \<and> toks p ! pos p \<noteq> '';'' \<and> toks p ! pos p \<noteq> ''{''")
    case False
    then have "host_tokens p = []"
      by (cases "pos p < toksz p") (auto simp: host_tokens_step)
    with False show ?thesis
      by (subst servers_loop_unfold) (auto simp: new_entries_def)
  next
    case True
    let ?q = "p\<lparr>pos := pos p + 1\<rparr>"
    have hs: "host_tokens p = toks p ! pos p # host_tokens ?q"
      using True by (simp add: host_tokens_step)
    have "toksz ?q - pos ?q < toksz p - pos p"
      using True by auto
    from less.hyps[OF this] True show ?thesis
      by (subst servers_loop_unfold) (simp add: hs new_entries_def)
  qed
qed

lemma host_tokens_bound: "pos p + length (host_tokens p) \<le> max (pos p) (toksz p)"
proof -
  have "length (host_tokens p) \<le> length (drop (pos p) (toks p))"
    unfolding host_tokens_def by (rule length_takeWhile_le)
  then show ?thesis by (simp add: toksz_def)
qed

lemma host_tokens_stop:
  "pos p + length (host_tokens p) < toksz p \<Longrightarrow>
   toks p ! (pos p + length (host_tokens p)) = '';'' \<or>
   toks p ! (pos p + length (host_tokens p)) = ''{''"
proof -
  let ?xs = "drop (pos p) (toks p)"
  let ?P = "\<lambda>t. t \<noteq> '';'' \<and> t \<noteq> ''{''"
  assume a: "pos p + length (host_tokens p) < toksz p"
  then have "length (takeWhile ?P ?xs) < length ?xs"
    by (simp add: host_tokens_def toksz_def)
  then have "\<not> ?P (?xs ! length (takeWhile ?P ?xs))"
    by (rule nth_length_takeWhile)
  moreover have "?xs ! length (takeWhile ?P ?xs) = toks p ! (pos p + length (host_tokens p))"
    using a by (simp add: host_tokens_def toksz_def)
  ultimately show ?thesis by auto
qed

subsection \<open>Boxes\<close>

text \<open>
  A chain \<^verbatim>\<open>if (tok_eq_adv(p, v1)) A1 else if (tok_eq_adv(p, v2)) A2 ... else B\<close>:
  the first keyword that equals the current token is consumed and selects its branch.
\<close>

fun tok_chain :: "(string \<times> 'a) list \<Rightarrow> parse \<Rightarrow> error + 'a option \<times> parse" where
  "tok_chain [] p = Inr (None, p)"
| "tok_chain ((v, x) # vs) p =
     (case tok_eq_adv p v of
        Inl e \<Rightarrow> Inl e
      | Inr (matched, p') \<Rightarrow> if matched then Inr (Some x, p') else tok_chain vs p)"

text \<open>The category keywords of \<^verbatim>\<open>parse_layout_host\<close>, in the order of its chain.\<close>

definition categories :: "(string \<times> drawcat) list" where
  "categories =
     [(''cpu'', DRAWCAT_CPU), (''mem'', DRAWCAT_MEM), (''net'', DRAWCAT_NET),
      (''disc'', DRAWCAT_DISC), (''link'', DRAWCAT_LINK), (''host'', DRAWCAT_HOST),
      (''nprocs'', DRAWCAT_PROCS), (''rprocs'', DRAWCAT_RPROCS), (''nfiles'', DRAWCAT_FILES)]"

text \<open>
  The option keywords that the inner loop of each category tests, in the order of its
  chain, each with the macro that it ORs into \<^verbatim>\<open>b->args\<close>.
\<close>

fun options :: "drawcat \<Rightarrow> (string \<times> opt) list" where
  "options DRAWCAT_CPU =
     [(''qmin_bars'', OPT_QMIN_BARS), (''qmin'', OPT_QMIN), (''min'', OPT_MIN), (''hour'', OPT_HOUR),
      (''day'', OPT_DAY), (''week'', OPT_WEEK), (''year'', OPT_YEAR)]"
| "options DRAWCAT_MEM =
     [(''qmin_bars'', OPT_QMIN_BARS), (''qmin'', OPT_QMIN), (''min'', OPT_MIN), (''hour'', OPT_HOUR),
      (''day'', OPT_DAY), (''week'', OPT_WEEK), (''year'', OPT_YEAR)]"
| "options DRAWCAT_NET =
     [(''qmin'', OPT_QMIN), (''min'', OPT_MIN), (''hour'', OPT_HOUR),
      (''day'', OPT_DAY), (''week'', OPT_WEEK), (''year'', OPT_YEAR)]"
| "options DRAWCAT_DISC =
     [(''qmin'', OPT_QMIN), (''min'', OPT_MIN), (''hour'', OPT_HOUR),
      (''day'', OPT_DAY), (''week'', OPT_WEEK), (''year'', OPT_YEAR)]"
| "options DRAWCAT_LINK =
     [(''ip'', OPT_IP), (''state'', OPT_STATE), (''access'', OPT_ACCESS)]"
| "options DRAWCAT_HOST = []"
| "options DRAWCAT_PROCS =
     [(''qmin_bars'', OPT_QMIN_BARS), (''qmin'', OPT_QMIN), (''min'', OPT_MIN), (''hour'', OPT_HOUR),
      (''day'', OPT_DAY), (''week'', OPT_WEEK), (''year'', OPT_YEAR)]"
| "options DRAWCAT_RPROCS =
     [(''qmin'', OPT_QMIN), (''qmin_bars'', OPT_QMIN_BARS), (''min'', OPT_MIN), (''hour'', OPT_HOUR),
      (''day'', OPT_DAY), (''week'', OPT_WEEK), (''year'', OPT_YEAR)]"
| "options DRAWCAT_FILES =
     [(''qmin'', OPT_QMIN), (''qmin_bars'', OPT_QMIN_BARS), (''min'', OPT_MIN), (''hour'', OPT_HOUR),
      (''day'', OPT_DAY), (''week'', OPT_WEEK), (''year'', OPT_YEAR)]"

lemma tok_chain_eq:
  "pos p < toksz p \<Longrightarrow>
   tok_chain tbl p =
     Inr (case map_of tbl (toks p ! pos p) of
            None \<Rightarrow> (None, p)
          | Some x \<Rightarrow> (Some x, p\<lparr>pos := pos p + 1\<rparr>))"
  by (induction tbl) (auto simp: tok_eq_adv_def)

lemma tok_chain_Some:
  "tok_chain tbl p = Inr (Some x, p') \<Longrightarrow> pos p < toksz p \<and> p' = p\<lparr>pos := pos p + 1\<rparr>"
  by (induction tbl) (auto simp: tok_eq_adv_def split: if_splits)

text \<open>
  The inner loop of one category, \<^verbatim>\<open>while (p->pos < p->toksz) if ... b->args |= ...\<close>;
  its state is the cursor and \<^verbatim>\<open>b->args\<close>.
\<close>

function box_options ::
  "flags \<Rightarrow> drawcat \<Rightarrow> parse \<Rightarrow> 32 word \<Rightarrow> error \<times> parse \<times> 32 word + parse \<times> 32 word" where
  "box_options fl c p a =
     (if pos p < toksz p then
        (case tok_chain (options c) p of
           Inl e \<Rightarrow> Inl (e, p, a)
         | Inr (found, p') \<Rightarrow>
             (case found of
                Some k \<Rightarrow> box_options fl c p' (a OR fl c k)
              | None \<Rightarrow>
                  (case tok_eq p '';'' of
                     Inl e \<Rightarrow> Inl (e, p, a)
                   | Inr semi \<Rightarrow>
                       if semi then Inr (p, a)
                       else
                         (case tok_eq p ''}'' of
                            Inl e \<Rightarrow> Inl (e, p, a)
                          | Inr closing \<Rightarrow>
                              if closing then Inr (p, a) else Inl (tok_unknown p, p, a)))))
      else Inr (p, a))"
  by pat_completeness auto
termination
  by (relation "measure (\<lambda>(fl, c, p, a). toksz p - pos p)")
     (auto dest!: tok_chain_Some)

declare box_options.simps [simp del]

lemma box_options_unfold:
  "box_options fl c p a =
     (if pos p < toksz p then
        (case map_of (options c) (toks p ! pos p) of
           Some k \<Rightarrow> box_options fl c (p\<lparr>pos := pos p + 1\<rparr>) (a OR fl c k)
         | None \<Rightarrow>
             if toks p ! pos p = '';'' \<or> toks p ! pos p = ''}'' then Inr (p, a)
             else Inl (UnknownToken, p, a))
      else Inr (p, a))"
  by (subst box_options.simps)
     (auto simp: tok_chain_eq tok_eq_def tok_unknown_def split: option.splits)

lemma box_options_advanced:
  "box_options fl c p a = Inr (p', a') \<Longrightarrow> advanced p p'"
proof (induction "toksz p - pos p" arbitrary: p a rule: less_induct)
  case less
  show ?case
  proof (cases "pos p < toksz p \<and> map_of (options c) (toks p ! pos p) \<noteq> None")
    case False
    with less.prems show ?thesis
      by (subst (asm) box_options_unfold) (auto split: if_splits)
  next
    case True
    then obtain k where k: "map_of (options c) (toks p ! pos p) = Some k"
      by auto
    let ?q = "p\<lparr>pos := pos p + 1\<rparr>"
    from less.prems True k have rec: "box_options fl c ?q (a OR fl c k) = Inr (p', a')"
      by (subst (asm) box_options_unfold) simp
    have "toksz ?q - pos ?q < toksz p - pos p"
      using True by auto
    from less.hyps[OF this rec] show ?thesis
      by (rule advanced_step_left)
  qed
qed

text \<open>
  One box definition, the body of the loop of \<^verbatim>\<open>parse_layout_host\<close> up to the end of
  the category's inner loop. The new element of \<^verbatim>\<open>box\<close> is zeroed first, so it is
  in the array also when the category is not recognised; its zero category is written
  \<open>DRAWCAT_CPU\<close>, the first enumerator. The \<^verbatim>\<open>host\<close> category starts from
  \<^verbatim>\<open>HOST_ACCESS\<close>, every other category from the zero of \<^verbatim>\<open>memset\<close>.
\<close>

definition push_box :: "draw \<Rightarrow> drawcat \<Rightarrow> 32 word \<Rightarrow> draw" where
  "push_box d c a = d\<lparr>box := box d @ [\<lparr>cat = c, args = a\<rparr>]\<rparr>"

definition box_def :: "flags \<Rightarrow> parse \<Rightarrow> draw \<Rightarrow> error \<times> parse \<times> draw + parse \<times> draw" where
  "box_def fl p d =
     (case tok_chain categories p of
        Inl e \<Rightarrow> Inl (e, p, push_box d DRAWCAT_CPU 0)
      | Inr (found, p1) \<Rightarrow>
          (case found of
             None \<Rightarrow> Inl (tok_unknown p, p, push_box d DRAWCAT_CPU 0)
           | Some c \<Rightarrow>
               (case box_options fl c p1 (if c = DRAWCAT_HOST then fl DRAWCAT_HOST OPT_ACCESS else 0) of
                  Inl (e, p2, a) \<Rightarrow> Inl (e, p2, push_box d c a)
                | Inr (p2, a) \<Rightarrow> Inr (p2, push_box d c a))))"

lemma box_def_advanced:
  "box_def fl p d = Inr (p', d') \<Longrightarrow> advanced p p' \<and> pos p < pos p'"
  by (auto simp: box_def_def advanced_def split: sum.splits option.splits prod.splits
           dest!: tok_chain_Some box_options_advanced)

subsection \<open>The layout statement\<close>

text \<open>
  The sub-parsers of the layout work on the structure that \<^verbatim>\<open>cfg->draw\<close> points
  to: \<^verbatim>\<open>parse_layout\<close> calls them only after it has allocated it.
\<close>

function layout_host_loop ::
  "flags \<Rightarrow> parse \<Rightarrow> draw \<Rightarrow> error \<times> parse \<times> draw + parse \<times> draw" where
  "layout_host_loop fl p d =
     (if pos p < toksz p then
        (case box_def fl p d of
           Inl f \<Rightarrow> Inl f
         | Inr (p1, d1) \<Rightarrow>
             (case tok_eq p1 ''}'' of
                Inl e \<Rightarrow> Inl (e, p1, d1)
              | Inr closing \<Rightarrow>
                  if closing then Inr (p1, d1)
                  else
                    (case tok_expect_adv p1 '';'' of
                       Inl e \<Rightarrow> Inl (e, p1, d1)
                     | Inr p2 \<Rightarrow>
                         (case tok_eq p2 ''}'' of
                            Inl e \<Rightarrow> Inl (e, p2, d1)
                          | Inr closing' \<Rightarrow>
                              if closing' then Inr (p2, d1) else layout_host_loop fl p2 d1))))
      else Inr (p, d))"
  by pat_completeness auto
termination
  by (relation "measure (\<lambda>(fl, p, d). toksz p - pos p)")
     (auto simp: tok_expect_adv_Inr advanced_def toksz_def dest!: box_def_advanced)

declare layout_host_loop.simps [simp del]

text \<open>
  What follows a box definition or a layout item, the three lines
  \<^verbatim>\<open>if (tok_eq(p, "}")) break; if ( ! tok_expect_adv(p, ";")) return 0; if (tok_eq(p, "}")) break;\<close>
  with the cursor primitives evaluated: the loop ends at a closing brace (\<open>Closing\<close>),
  goes on after \<^verbatim>\<open>;\<close> (\<open>Next\<close>), or the function returns 0 or stops (\<open>Broken\<close>).
\<close>

datatype separation = Closing parse | Next parse | Broken error parse

definition separator :: "parse \<Rightarrow> separation" where
  "separator p =
     (if pos p < toksz p then
        if toks p ! pos p = ''}'' then Closing p
        else if toks p ! pos p = '';'' then
          (if pos p + 1 < toksz p then
             if toks p ! (pos p + 1) = ''}'' then Closing (p\<lparr>pos := pos p + 1\<rparr>)
             else Next (p\<lparr>pos := pos p + 1\<rparr>)
           else Broken AssertionFailure (p\<lparr>pos := pos p + 1\<rparr>))
        else Broken UnexpectedToken p
      else Broken AssertionFailure p)"

lemma separator_Closing: "separator p = Closing q \<Longrightarrow> advanced p q \<and> pos q < toksz q"
  by (auto simp: separator_def advanced_def split: if_splits)

lemma separator_Next: "separator p = Next q \<Longrightarrow> advanced p q \<and> pos p < pos q \<and> pos q < toksz q"
  by (auto simp: separator_def advanced_def split: if_splits)

lemma layout_host_loop_unfold:
  "layout_host_loop fl p d =
     (if pos p < toksz p then
        (case box_def fl p d of
           Inl f \<Rightarrow> Inl f
         | Inr (p1, d1) \<Rightarrow>
             (case separator p1 of
                Closing q \<Rightarrow> Inr (q, d1)
              | Next q \<Rightarrow> layout_host_loop fl q d1
              | Broken e q \<Rightarrow> Inl (e, q, d1)))
      else Inr (p, d))"
  by (subst layout_host_loop.simps)
     (auto simp: separator_def tok_eq_def tok_expect_adv_def tok_expect_def tok_nadv_def
           split: sum.splits)

lemma layout_host_loop_advanced:
  "layout_host_loop fl p d = Inr (p', d') \<Longrightarrow> advanced p p'"
proof (induction "toksz p - pos p" arbitrary: p d rule: less_induct)
  case less
  show ?case
  proof (cases "pos p < toksz p")
    case False
    with less.prems show ?thesis
      by (subst (asm) layout_host_loop_unfold) simp
  next
    case True
    with less.prems obtain p1 d1 where bd: "box_def fl p d = Inr (p1, d1)"
      and rest: "(case separator p1 of
                    Closing q \<Rightarrow> Inr (q, d1)
                  | Next q \<Rightarrow> layout_host_loop fl q d1
                  | Broken e q \<Rightarrow> Inl (e, q, d1)) = Inr (p', d')"
      by (subst (asm) layout_host_loop_unfold) (auto split: sum.splits)
    from bd have a1: "advanced p p1" and lt: "pos p < pos p1"
      by (auto dest: box_def_advanced)
    show ?thesis
    proof (cases "separator p1")
      case (Closing q)
      with rest a1 show ?thesis
        by (auto dest!: separator_Closing intro: advanced_trans)
    next
      case (Next q)
      then have a2: "advanced p1 q" "pos p1 < pos q"
        by (auto dest: separator_Next)
      have "toksz q - pos q < toksz p - pos p"
        using a1 a2 lt True by (auto simp: advanced_def toksz_def)
      from less.hyps[OF this] rest Next have "advanced q p'"
        by simp
      with a1 a2 show ?thesis
        by (blast intro: advanced_trans)
    next
      case (Broken e q)
      with rest show ?thesis by simp
    qed
  qed
qed

definition parse_layout_host ::
  "flags \<Rightarrow> parse \<Rightarrow> draw \<Rightarrow> error \<times> parse \<times> draw + parse \<times> draw" where
  "parse_layout_host fl p d =
     (case tok_expect_adv p ''{'' of
        Inl e \<Rightarrow> Inl (e, p, d)
      | Inr p1 \<Rightarrow>
          (case tok_eq p1 ''}'' of
             Inl e \<Rightarrow> Inl (e, p1, d)
           | Inr closing \<Rightarrow>
               if closing then Inr (p1, d)
               else
                 (case layout_host_loop fl p1 d of
                    Inl f \<Rightarrow> Inl f
                  | Inr (p2, d2) \<Rightarrow>
                      (case tok_expect_adv p2 ''}'' of
                         Inl e \<Rightarrow> Inl (e, p2, d2)
                       | Inr p3 \<Rightarrow> Inr (p3, d2)))))"

lemma parse_layout_host_advanced:
  "parse_layout_host fl p d = Inr (p', d') \<Longrightarrow> advanced p p'"
  by (auto simp: parse_layout_host_def tok_expect_adv_Inr advanced_def
           split: sum.splits if_splits prod.splits dest!: layout_host_loop_advanced)

text \<open>
  One item of the layout body: \<^verbatim>\<open>header\<close>, \<^verbatim>\<open>errlog\<close> with its number, or a
  \<^verbatim>\<open>host\<close> block. \<^verbatim>\<open>errlog\<close> is assigned the result of \<^verbatim>\<open>strtonum\<close>
  before the error is tested.
\<close>

definition layout_item ::
  "flags \<Rightarrow> parse \<Rightarrow> draw \<Rightarrow> error \<times> parse \<times> draw + parse \<times> draw" where
  "layout_item fl p d =
     (case tok_eq_adv p ''header'' of
        Inl e \<Rightarrow> Inl (e, p, d)
      | Inr (is_header, p1) \<Rightarrow>
          if is_header then Inr (p1, d\<lparr>header := True\<rparr>)
          else
            (case tok_eq_adv p ''errlog'' of
               Inl e \<Rightarrow> Inl (e, p, d)
             | Inr (is_errlog, p1) \<Rightarrow>
                 if is_errlog then
                   (if pos p1 < toksz p1 then
                      (case strtonum (toks p1 ! pos p1) 0 INT_MAX of
                         Inl _ \<Rightarrow> Inl (InvalidRange, p1, d\<lparr>errlog := 0\<rparr>)
                       | Inr n \<Rightarrow> Inr (p1\<lparr>pos := pos p1 + 1\<rparr>, d\<lparr>errlog := n\<rparr>))
                    else Inl (OutOfBoundsRead, p1, d))
                 else
                   (case tok_eq_adv p ''host'' of
                      Inl e \<Rightarrow> Inl (e, p, d)
                    | Inr (is_host, p1) \<Rightarrow>
                        if is_host then parse_layout_host fl p1 d
                        else Inl (tok_unknown p, p, d))))"

lemma layout_item_advanced:
  "layout_item fl p d = Inr (p', d') \<Longrightarrow> advanced p p' \<and> pos p < pos p'"
  by (auto simp: layout_item_def tok_eq_adv_def advanced_def
           split: sum.splits if_splits prod.splits dest!: parse_layout_host_advanced)

function layout_loop ::
  "flags \<Rightarrow> parse \<Rightarrow> draw \<Rightarrow> error \<times> parse \<times> draw + parse \<times> draw" where
  "layout_loop fl p d =
     (if pos p < toksz p then
        (case layout_item fl p d of
           Inl f \<Rightarrow> Inl f
         | Inr (p1, d1) \<Rightarrow>
             (case tok_eq p1 ''}'' of
                Inl e \<Rightarrow> Inl (e, p1, d1)
              | Inr closing \<Rightarrow>
                  if closing then Inr (p1, d1)
                  else
                    (case tok_expect_adv p1 '';'' of
                       Inl e \<Rightarrow> Inl (e, p1, d1)
                     | Inr p2 \<Rightarrow>
                         (case tok_eq p2 ''}'' of
                            Inl e \<Rightarrow> Inl (e, p2, d1)
                          | Inr closing' \<Rightarrow>
                              if closing' then Inr (p2, d1) else layout_loop fl p2 d1))))
      else Inr (p, d))"
  by pat_completeness auto
termination
  by (relation "measure (\<lambda>(fl, p, d). toksz p - pos p)")
     (auto simp: tok_expect_adv_Inr advanced_def toksz_def dest!: layout_item_advanced)

declare layout_loop.simps [simp del]

text \<open>
  \<^verbatim>\<open>parse_layout\<close>. An empty body \<^verbatim>\<open>{ }\<close> returns 1 at once, before the test for
  an earlier layout and before \<^verbatim>\<open>cfg->draw\<close> is allocated. \<^verbatim>\<open>calloc\<close> gives a
  structure with no header, no error log and no box.
\<close>

definition parse_layout ::
  "flags \<Rightarrow> parse \<Rightarrow> config \<Rightarrow> error \<times> parse \<times> config + parse \<times> config" where
  "parse_layout fl p cfg =
     (case tok_expect_adv p ''{'' of
        Inl e \<Rightarrow> Inl (e, p, cfg)
      | Inr p1 \<Rightarrow>
          (case tok_eq_adv p1 ''}'' of
             Inl e \<Rightarrow> Inl (e, p1, cfg)
           | Inr (closing, p2) \<Rightarrow>
               if closing then Inr (p2, cfg)
               else if draw cfg \<noteq> None then Inl (DuplicateSection, p2, cfg)
               else
                 (case layout_loop fl p2 \<lparr>header = False, errlog = 0, box = []\<rparr> of
                    Inl (e, p3, d) \<Rightarrow> Inl (e, p3, cfg\<lparr>draw := Some d\<rparr>)
                  | Inr (p3, d) \<Rightarrow>
                      (case tok_expect_adv p3 ''}'' of
                         Inl e \<Rightarrow> Inl (e, p3, cfg\<lparr>draw := Some d\<rparr>)
                       | Inr p4 \<Rightarrow>
                           (case tok_expect_adv p4 '';'' of
                              Inl e \<Rightarrow> Inl (e, p4, cfg\<lparr>draw := Some d\<rparr>)
                            | Inr p5 \<Rightarrow> Inr (p5, cfg\<lparr>draw := Some d\<rparr>))))))"

subsection \<open>The driver\<close>

text \<open>One statement: the body of the top-level loop of \<^verbatim>\<open>config_parse\<close>.\<close>

definition statement ::
  "flags \<Rightarrow> parse \<Rightarrow> config \<Rightarrow> error \<times> parse \<times> config + parse \<times> config" where
  "statement fl p cfg =
     (case tok_eq_adv p ''servers'' of
        Inl e \<Rightarrow> Inl (e, p, cfg)
      | Inr (is_servers, p1) \<Rightarrow>
          if is_servers then parse_servers p1 cfg
          else
            (case tok_eq_adv p ''layout'' of
               Inl e \<Rightarrow> Inl (e, p, cfg)
             | Inr (is_layout, p1) \<Rightarrow>
                 if is_layout then parse_layout fl p1 cfg
                 else
                   (case tok_eq_adv p ''waittime'' of
                      Inl e \<Rightarrow> Inl (e, p, cfg)
                    | Inr (is_waittime, p1) \<Rightarrow>
                        if is_waittime then parse_waittime p1 cfg
                        else Inl (tok_unknown p, p, cfg))))"

lemma layout_loop_unfold:
  "layout_loop fl p d =
     (if pos p < toksz p then
        (case layout_item fl p d of
           Inl f \<Rightarrow> Inl f
         | Inr (p1, d1) \<Rightarrow>
             (case separator p1 of
                Closing q \<Rightarrow> Inr (q, d1)
              | Next q \<Rightarrow> layout_loop fl q d1
              | Broken e q \<Rightarrow> Inl (e, q, d1)))
      else Inr (p, d))"
  by (subst layout_loop.simps)
     (auto simp: separator_def tok_eq_def tok_expect_adv_def tok_expect_def tok_nadv_def
           split: sum.splits)

lemma layout_loop_advanced:
  "layout_loop fl p d = Inr (p', d') \<Longrightarrow> advanced p p'"
proof (induction "toksz p - pos p" arbitrary: p d rule: less_induct)
  case less
  show ?case
  proof (cases "pos p < toksz p")
    case False
    with less.prems show ?thesis
      by (subst (asm) layout_loop_unfold) simp
  next
    case True
    with less.prems obtain p1 d1 where bd: "layout_item fl p d = Inr (p1, d1)"
      and rest: "(case separator p1 of
                    Closing q \<Rightarrow> Inr (q, d1)
                  | Next q \<Rightarrow> layout_loop fl q d1
                  | Broken e q \<Rightarrow> Inl (e, q, d1)) = Inr (p', d')"
      by (subst (asm) layout_loop_unfold) (auto split: sum.splits)
    from bd have a1: "advanced p p1" and lt: "pos p < pos p1"
      by (auto dest: layout_item_advanced)
    show ?thesis
    proof (cases "separator p1")
      case (Closing q)
      with rest a1 show ?thesis
        by (auto dest!: separator_Closing intro: advanced_trans)
    next
      case (Next q)
      then have a2: "advanced p1 q" "pos p1 < pos q"
        by (auto dest: separator_Next)
      have "toksz q - pos q < toksz p - pos p"
        using a1 a2 lt True by (auto simp: advanced_def toksz_def)
      from less.hyps[OF this] rest Next have "advanced q p'"
        by simp
      with a1 a2 show ?thesis
        by (blast intro: advanced_trans)
    next
      case (Broken e q)
      with rest show ?thesis by simp
    qed
  qed
qed

lemma parse_layout_advanced:
  "parse_layout fl p cfg = Inr (p', cfg') \<Longrightarrow> advanced p p'"
  by (auto simp: parse_layout_def tok_expect_adv_Inr tok_eq_adv_def advanced_def
           split: sum.splits if_splits prod.splits dest!: layout_loop_advanced)

lemma parse_waittime_advanced:
  "parse_waittime p cfg = Inr (p', cfg') \<Longrightarrow> advanced p p'"
  by (auto simp: parse_waittime_def tok_expect_adv_Inr tok_adv_eq advanced_def
           split: sum.splits if_splits prod.splits)

lemma parse_server_args_advanced:
  "parse_server_args p cfg count = Inr (p', cfg') \<Longrightarrow> advanced p p'"
  by (auto simp: parse_server_args_def tok_expect_adv_Inr advanced_def
           split: sum.splits if_splits prod.splits dest!: server_args_loop_advanced)

lemma parse_servers_advanced:
  "parse_servers p cfg = Inr (p', cfg') \<Longrightarrow> advanced p p'"
  by (auto simp: parse_servers_def servers_loop_eq tok_eq_adv_def advanced_def
           split: sum.splits if_splits prod.splits dest!: parse_server_args_advanced)

lemma statement_advanced:
  "statement fl p cfg = Inr (p', cfg') \<Longrightarrow> advanced p p' \<and> pos p < pos p'"
  by (auto simp: statement_def tok_eq_adv_def advanced_def
           split: sum.splits if_splits prod.splits
           dest!: parse_servers_advanced parse_layout_advanced parse_waittime_advanced)

text \<open>
  The top-level loop. A statement parser that returns 0 ends the loop (\<^verbatim>\<open>break\<close>) and
  leaves the cursor where it failed.
\<close>

function config_loop ::
  "flags \<Rightarrow> parse \<Rightarrow> config \<Rightarrow> error \<times> parse \<times> config + parse \<times> config" where
  "config_loop fl p cfg =
     (if pos p < toksz p then
        (case statement fl p cfg of
           Inl f \<Rightarrow> Inl f
         | Inr (p1, cfg1) \<Rightarrow> config_loop fl p1 cfg1)
      else Inr (p, cfg))"
  by pat_completeness auto
termination
  by (relation "measure (\<lambda>(fl, p, cfg). toksz p - pos p)")
     (auto simp: advanced_def toksz_def dest!: statement_advanced)

declare config_loop.simps [simp del]

text \<open>
  \<^verbatim>\<open>config_cmdline\<close>: \<^verbatim>\<open>argc\<close> is the length of \<open>argv\<close>. The array from
  \<^verbatim>\<open>calloc\<close> holds zeroed entries, and the loop gives entry \<open>i\<close> a copy of
  \<^verbatim>\<open>argv[i]\<close>.
\<close>

definition config_cmdline :: "config \<Rightarrow> string list \<Rightarrow> error + config" where
  "config_cmdline cfg argv =
     (if length argv = 0 then Inl AssertionFailure
      else Inr (cfg\<lparr>urls := map (\<lambda>a. \<lparr>url = a, waittime = 0\<rparr>) argv\<rparr>))"

text \<open>
  What opening the file gives: no such file (\<^verbatim>\<open>ENOENT\<close>), any other failure of
  \<^verbatim>\<open>open\<close> or \<^verbatim>\<open>fstat\<close>, or the bytes of the file. \<^verbatim>\<open>mmap\<close> is called with
  the length of the file; POSIX makes it fail for the length 0, so \<^verbatim>\<open>config_parse\<close>
  returns 0 for a file with no bytes.
\<close>

datatype config_file = NoSuchFile | Unreadable | Bytes string

text \<open>
  \<^verbatim>\<open>strsep\<close> cuts the buffer at the first delimiter and returns the part before it;
  the buffer pointer becomes \<^verbatim>\<open>NULL\<close> when there is no delimiter left. The buffer
  is a C string: it ends at the first NUL byte.
\<close>

definition strsep :: "string \<Rightarrow> string \<Rightarrow> string \<times> string option" where
  "strsep buf delim =
     (let cp = takeWhile (\<lambda>c. c \<notin> set delim) buf;
          rest = dropWhile (\<lambda>c. c \<notin> set delim) buf
      in (cp, case rest of [] \<Rightarrow> None | _ # buf' \<Rightarrow> Some buf'))"

lemma strsep_shorter: "strsep buf delim = (cp, Some buf') \<Longrightarrow> length buf' < length buf"
proof -
  assume "strsep buf delim = (cp, Some buf')"
  then obtain c where "dropWhile (\<lambda>c. c \<notin> set delim) buf = c # buf'"
    by (auto simp: strsep_def Let_def split: list.splits)
  moreover have "length (dropWhile (\<lambda>c. c \<notin> set delim) buf) \<le> length buf"
    by (rule length_dropWhile_le)
  ultimately show ?thesis by simp
qed

function tokenize :: "string option \<Rightarrow> string list \<Rightarrow> string list" where
  "tokenize None ts = ts"
| "tokenize (Some buf) ts =
     (case strsep buf [CHR '' '', CHR 0x09, CHR 0x0D, CHR 0x0A] of
        (cp, buf') \<Rightarrow> tokenize buf' (if cp = [] then ts else ts @ [cp]))"
  by pat_completeness auto
termination
  by (relation "measure (\<lambda>(b, ts). case b of None \<Rightarrow> 0 | Some buf \<Rightarrow> length buf + 1)")
     (auto split: option.splits dest: strsep_shorter [OF sym])

definition c_string :: "string \<Rightarrow> string" where
  "c_string bytes = takeWhile (\<lambda>c. c \<noteq> CHR 0x00) bytes"

definition fatal :: "error \<Rightarrow> bool" where
  "fatal e \<longleftrightarrow> e = AssertionFailure \<or> e = OutOfBoundsRead"

text \<open>
  \<^verbatim>\<open>config_parse\<close>. After the loop the function returns 0 exactly when the cursor is
  not at the end of the tokens (\<^verbatim>\<open>p.pos != p.toksz\<close>); a statement parser that
  failed at the very end of the input therefore does not make \<^verbatim>\<open>config_parse\<close> fail.
  The result is \<open>Inr\<close> of the configuration when \<^verbatim>\<open>config_parse\<close> returns 1, and
  \<open>Inl\<close> of the diagnostic when it returns 0 or the program is stopped.
  \<open>config_finish\<close> is the part after the loop; \<open>logged\<close> is the diagnostic of the
  statement parser that ended the loop, if one did.
\<close>

definition config_finish :: "error option \<Rightarrow> parse \<Rightarrow> config \<Rightarrow> string list \<Rightarrow> error + config" where
  "config_finish logged p cfg argv =
     (if pos p \<noteq> toksz p then Inl (case logged of Some e \<Rightarrow> e | None \<Rightarrow> CursorMismatch)
      else if length argv = 0 then Inr cfg
      else config_cmdline (cfg\<lparr>urls := []\<rparr>) argv)"

text \<open>
  The configuration before parsing (\<^verbatim>\<open>memset\<close>, then the default waittime), and
  the part of \<^verbatim>\<open>config_parse\<close> that follows the tokenizer.
\<close>

definition config_init :: config where
  "config_init = \<lparr>urls = [], waittime = 60, draw = None\<rparr>"

definition parse_tokens :: "flags \<Rightarrow> string list \<Rightarrow> string list \<Rightarrow> error + config" where
  "parse_tokens fl ts argv =
     (case config_loop fl \<lparr>toks = ts, pos = 0\<rparr> config_init of
        Inl (e, p, cfg) \<Rightarrow> if fatal e then Inl e else config_finish (Some e) p cfg argv
      | Inr (p, cfg) \<Rightarrow> config_finish None p cfg argv)"

definition config_parse :: "flags \<Rightarrow> config_file \<Rightarrow> string list \<Rightarrow> error + config" where
  "config_parse fl f argv =
     (case f of
        NoSuchFile \<Rightarrow> config_cmdline config_init argv
      | Unreadable \<Rightarrow> Inl IOFailure
      | Bytes bytes \<Rightarrow>
          if bytes = [] then Inl IOFailure
          else parse_tokens fl (tokenize (Some (c_string bytes)) []) argv)"

subsection \<open>Positions that the loops reach\<close>

text \<open>
  \<open>config_steps fl n p cfg\<close> is the state of the top-level loop after \<open>n\<close> statements
  that returned 1, started at \<open>(p, cfg)\<close>; \<open>None\<close> if the loop does not get that far.
\<close>

fun config_steps :: "flags \<Rightarrow> nat \<Rightarrow> parse \<Rightarrow> config \<Rightarrow> (parse \<times> config) option" where
  "config_steps fl 0 p cfg = Some (p, cfg)"
| "config_steps fl (Suc n) p cfg =
     (if pos p < toksz p then
        (case statement fl p cfg of
           Inl _ \<Rightarrow> None
         | Inr (p1, cfg1) \<Rightarrow> config_steps fl n p1 cfg1)
      else None)"

lemma config_steps_loop:
  "config_steps fl n p cfg = Some (q, c) \<Longrightarrow> config_loop fl p cfg = config_loop fl q c"
proof (induction n arbitrary: p cfg)
  case 0
  then show ?case by simp
next
  case (Suc n)
  then show ?case
    by (subst config_loop.simps) (auto split: if_splits sum.splits)
qed

lemma config_steps_advanced:
  "config_steps fl n p cfg = Some (q, c) \<Longrightarrow> advanced p q"
proof (induction n arbitrary: p cfg)
  case 0
  then show ?case by simp
next
  case (Suc n)
  then show ?case
    by (auto split: if_splits sum.splits dest!: statement_advanced intro: advanced_trans)
qed

lemma config_steps_snoc:
  "config_steps fl n p cfg = Some (q, c) \<Longrightarrow> pos q < toksz q \<Longrightarrow>
   statement fl q c = Inr (q', c') \<Longrightarrow> config_steps fl (Suc n) p cfg = Some (q', c')"
proof (induction n arbitrary: p cfg)
  case 0
  then show ?case by simp
next
  case (Suc n)
  from Suc.prems(1) obtain p1 cfg1 where
    s: "pos p < toksz p" "statement fl p cfg = Inr (p1, cfg1)"
       "config_steps fl n p1 cfg1 = Some (q, c)"
    by (auto split: if_splits sum.splits)
  from Suc.IH[OF s(3) Suc.prems(2,3)] s(1,2) show ?case
    by simp
qed

lemma config_loop_fail:
  "pos p < toksz p \<Longrightarrow> statement fl p cfg = Inl f \<Longrightarrow> config_loop fl p cfg = Inl f"
  by (subst config_loop.simps) simp

lemma config_loop_end:
  "\<not> pos p < toksz p \<Longrightarrow> config_loop fl p cfg = Inr (p, cfg)"
  by (subst config_loop.simps) simp

lemma parse_tokens_fail:
  assumes "config_steps fl n \<lparr>toks = ts, pos = 0\<rparr> config_init = Some (p, cfg)"
    and "pos p < toksz p" and "statement fl p cfg = Inl (e, p', cfg')"
    and "pos p' \<noteq> toksz p'" and "\<not> fatal e"
  shows "parse_tokens fl ts argv = Inl e"
  using assms
  by (simp add: parse_tokens_def config_steps_loop [OF assms(1)] config_loop_fail config_finish_def)

lemma parse_tokens_done:
  assumes "config_steps fl n \<lparr>toks = ts, pos = 0\<rparr> config_init = Some (p, cfg)"
    and "pos p = toksz p"
  shows "parse_tokens fl ts [] = Inr cfg"
  using assms
  by (simp add: parse_tokens_def config_steps_loop [OF assms(1)] config_loop_end config_finish_def)

subsection \<open>Facts about numbers\<close>

lemma strtonum_eq:
  assumes "LLONG_MIN \<le> lo" "lo \<le> hi" "hi \<le> LLONG_MAX"
  shows "strtonum s lo hi =
     (case decimal_prefix s of
        None \<Rightarrow> Inl INVALID
      | Some (v, ep) \<Rightarrow>
          if ep \<noteq> [] then Inl INVALID
          else if v < lo then Inl TOOSMALL
          else if v > hi then Inl TOOLARGE
          else Inr v)"
  using assms
  by (auto simp: strtonum_def strtoll_def LLONG_MIN_def LLONG_MAX_def split: option.splits)

text \<open>
  A token parses as an integer when \<^verbatim>\<open>strtoll\<close> converts all of it; \<open>integer_token\<close>
  gives that integer.
\<close>

definition integer_token :: "string \<Rightarrow> int option" where
  "integer_token t = (case decimal_prefix t of Some (v, []) \<Rightarrow> Some v | _ \<Rightarrow> None)"

lemma strtonum_waittime:
  "strtonum t 15 INT_MAX =
     (case integer_token t of
        None \<Rightarrow> Inl INVALID
      | Some v \<Rightarrow> if v < 15 then Inl TOOSMALL else if v > INT_MAX then Inl TOOLARGE else Inr v)"
  by (subst strtonum_eq)
     (auto simp: integer_token_def INT_MAX_def LLONG_MIN_def LLONG_MAX_def
           split: option.splits list.splits)

lemma statement_waittime:
  "pos p < toksz p \<Longrightarrow> toks p ! pos p = ''waittime'' \<Longrightarrow>
   statement fl p cfg = parse_waittime (p\<lparr>pos := pos p + 1\<rparr>) cfg"
  by (simp add: statement_def tok_eq_adv_def)

lemma parse_waittime_eq:
  "pos p < toksz p \<Longrightarrow>
   parse_waittime p cfg =
     (case strtonum (toks p ! pos p) 15 INT_MAX of
        Inl _ \<Rightarrow> Inl (InvalidRange, p, cfg\<lparr>waittime := 0\<rparr>)
      | Inr n \<Rightarrow>
          if pos p + 1 < toksz p then
            if toks p ! (pos p + 1) = '';'' then Inr (p\<lparr>pos := pos p + 2\<rparr>, cfg\<lparr>waittime := n\<rparr>)
            else Inl (UnexpectedToken, p\<lparr>pos := pos p + 1\<rparr>, cfg\<lparr>waittime := n\<rparr>)
          else Inl (UnexpectedEOF, p\<lparr>pos := pos p + 1\<rparr>, cfg\<lparr>waittime := n\<rparr>))"
  by (simp add: parse_waittime_def tok_adv_def tok_nadv_def tok_expect_adv_def tok_expect_def
           Let_def split: sum.splits)

subsection \<open>Facts about the servers statement\<close>

text \<open>\<open>stamp w e\<close> is the entry \<open>e\<close> with its waittime set to \<open>w\<close>.\<close>

definition stamp :: "int \<Rightarrow> nconfig \<Rightarrow> nconfig" where
  "stamp w e = e\<lparr>nconfig.waittime := w\<rparr>"

lemma set_waittimes_nth:
  "i \<le> count \<Longrightarrow> count \<le> length us \<Longrightarrow>
   length (set_waittimes i count w us) = length us \<and>
   (\<forall>k < length us. set_waittimes i count w us ! k =
      (if length us - count \<le> k \<and> k < length us - i then stamp w (us ! k) else us ! k))"
proof (induction i count w us rule: set_waittimes.induct)
  case (1 i count wt us)
  show ?case
  proof (cases "i < count")
    case False
    with "1.prems" show ?thesis
      by (subst set_waittimes.simps, subst (2) set_waittimes.simps) auto
  next
    case True
    let ?j = "length us - 1 - i"
    let ?us = "us[?j := (us ! ?j)\<lparr>nconfig.waittime := wt\<rparr>]"
    have j: "?j < length us" using True "1.prems" by linarith
    from True "1.prems" have IH: "length (set_waittimes (i + 1) count wt ?us) = length ?us \<and>
       (\<forall>k < length ?us. set_waittimes (i + 1) count wt ?us ! k =
          (if length ?us - count \<le> k \<and> k < length ?us - (i + 1) then stamp wt (?us ! k) else ?us ! k))"
      by (intro "1.IH") auto
    have unf: "set_waittimes i count wt us = set_waittimes (i + 1) count wt ?us"
      using True by (subst set_waittimes.simps) simp
    show ?thesis
      unfolding unf using IH j True "1.prems"
      by (auto simp: nth_list_update stamp_def)
  qed
qed

lemma set_waittimes_eq:
  assumes "count \<le> length us"
  shows "set_waittimes 0 count w us =
           take (length us - count) us @ map (stamp w) (drop (length us - count) us)"
proof (rule nth_equalityI)
  from set_waittimes_nth [of 0 count us w] assms
  show "length (set_waittimes 0 count w us) =
        length (take (length us - count) us @ map (stamp w) (drop (length us - count) us))"
    by simp
next
  fix k assume "k < length (set_waittimes 0 count w us)"
  with set_waittimes_nth [of 0 count us w] assms
  show "set_waittimes 0 count w us ! k =
        (take (length us - count) us @ map (stamp w) (drop (length us - count) us)) ! k"
    by (auto simp: nth_append)
qed

lemma stamp_new_entries:
  "map (stamp w) (new_entries hs) = map (\<lambda>h. \<lparr>url = h, waittime = w\<rparr>) hs"
  by (simp add: new_entries_def stamp_def)

lemma server_args_loop_stop:
  "server_args_loop p wt = Inr (p', wt') \<Longrightarrow> pos p' < toksz p' \<Longrightarrow> toks p' ! pos p' = ''}''"
proof (induction "toksz p - pos p" arbitrary: p wt rule: less_induct)
  case less
  show ?case
  proof (cases "pos p < toksz p \<and> toks p ! pos p = ''waittime''")
    case False
    with less.prems show ?thesis
      by (subst (asm) server_args_loop_unfold) (auto split: if_splits)
  next
    case True
    define q where "q = p\<lparr>pos := (if toks p ! (pos p + 2) = '';'' then pos p + 3 else pos p + 2)\<rparr>"
    from less.prems True obtain w where rec: "server_args_loop q w = Inr (p', wt')"
      and b: "pos p + 2 < toksz p"
      unfolding q_def
      by (subst (asm) server_args_loop_unfold) (auto split: if_splits sum.splits)
    have "toksz q - pos q < toksz p - pos p"
      using b by (auto simp: q_def)
    from less.hyps[OF this rec less.prems(2)] show ?thesis .
  qed
qed

lemma server_args_loop_range:
  "server_args_loop p wt = Inr (p', wt') \<Longrightarrow> wt' = wt \<or> (15 \<le> wt' \<and> wt' \<le> INT_MAX)"
proof (induction "toksz p - pos p" arbitrary: p wt rule: less_induct)
  case less
  show ?case
  proof (cases "pos p < toksz p \<and> toks p ! pos p = ''waittime''")
    case False
    with less.prems show ?thesis
      by (subst (asm) server_args_loop_unfold) (auto split: if_splits)
  next
    case True
    define q where "q = p\<lparr>pos := (if toks p ! (pos p + 2) = '';'' then pos p + 3 else pos p + 2)\<rparr>"
    from less.prems True obtain w where rec: "server_args_loop q w = Inr (p', wt')"
      and b: "pos p + 2 < toksz p" and w: "strtonum (toks p ! (pos p + 1)) 15 INT_MAX = Inr w"
      unfolding q_def
      by (subst (asm) server_args_loop_unfold) (auto split: if_splits sum.splits)
    have "toksz q - pos q < toksz p - pos p"
      using b by (auto simp: q_def)
    from less.hyps[OF this rec] have "wt' = w \<or> (15 \<le> wt' \<and> wt' \<le> INT_MAX)" .
    moreover from w have "15 \<le> w \<and> w \<le> INT_MAX"
      by (auto simp: strtonum_waittime split: option.splits if_splits)
    ultimately show ?thesis by auto
  qed
qed

lemma parse_server_args_eq:
  "parse_server_args p cfg count =
     (case server_args_loop p 0 of
        Inl (e, p') \<Rightarrow> Inl (e, p', cfg)
      | Inr (p1, wt) \<Rightarrow>
          if pos p1 < toksz p1 then
            (if length (urls cfg) \<ge> count then
               Inr (p1\<lparr>pos := pos p1 + 1\<rparr>,
                    if wt = 0 then cfg
                    else cfg\<lparr>urls := take (length (urls cfg) - count) (urls cfg) @
                                      map (stamp wt) (drop (length (urls cfg) - count) (urls cfg))\<rparr>)
             else Inl (AssertionFailure, p1\<lparr>pos := pos p1 + 1\<rparr>, cfg))
          else Inl (UnexpectedEOF, p1, cfg))"
  by (auto simp: parse_server_args_def tok_expect_adv_def tok_expect_def tok_nadv_def
                 set_waittimes_eq
           split: sum.splits prod.splits dest: server_args_loop_stop)

lemma statement_servers:
  "pos p < toksz p \<Longrightarrow> toks p ! pos p = ''servers'' \<Longrightarrow>
   statement fl p cfg = parse_servers (p\<lparr>pos := pos p + 1\<rparr>) cfg"
  by (simp add: statement_def tok_eq_adv_def)

lemma parse_servers_eq:
  "parse_servers p cfg =
     (let hs = host_tokens p;
          q = p\<lparr>pos := pos p + length hs\<rparr>;
          cfg1 = cfg\<lparr>urls := urls cfg @ new_entries hs\<rparr>
      in if hs = [] then Inl (EmptyServerList, q, cfg1)
         else if \<not> pos q < toksz q then Inl (UnexpectedEOF, q, cfg1)
         else if toks q ! pos q = ''{'' then
           (case parse_server_args (q\<lparr>pos := pos q + 1\<rparr>) cfg1 (length hs) of
              Inl f \<Rightarrow> Inl f
            | Inr (p3, cfg3) \<Rightarrow>
                if \<not> pos p3 < toksz p3 then Inl (UnexpectedEOF, p3, cfg3)
                else if toks p3 ! pos p3 = '';'' then Inr (p3\<lparr>pos := pos p3 + 1\<rparr>, cfg3)
                else Inl (UnexpectedToken, p3, cfg3))
         else Inr (q\<lparr>pos := pos q + 1\<rparr>, cfg1))"
  by (auto simp: parse_servers_def servers_loop_eq Let_def tok_nadv_def tok_eq_adv_def
                 tok_expect_def
           split: sum.splits prod.splits)


lemma server_args_loop_single:
  assumes "pos r + 2 < toksz r" and "toks r ! pos r = ''waittime''"
    and "integer_token (toks r ! (pos r + 1)) = Some n" and "15 \<le> n" and "n \<le> INT_MAX"
    and "toks r ! (pos r + 2) = ''}'' \<or>
         (toks r ! (pos r + 2) = '';'' \<and> pos r + 3 < toksz r \<and> toks r ! (pos r + 3) = ''}'')"
  shows "server_args_loop r wt =
           Inr (r\<lparr>pos := (if toks r ! (pos r + 2) = '';'' then pos r + 3 else pos r + 2)\<rparr>, n)"
  using assms
  by (subst server_args_loop_unfold, subst server_args_loop_unfold)
     (auto simp: strtonum_waittime)

lemma parse_servers_plain:
  "host_tokens q \<noteq> [] \<Longrightarrow> pos q + length (host_tokens q) < toksz q \<Longrightarrow>
   toks q ! (pos q + length (host_tokens q)) = '';'' \<Longrightarrow>
   parse_servers q cfg =
     Inr (q\<lparr>pos := pos q + length (host_tokens q) + 1\<rparr>,
          cfg\<lparr>urls := urls cfg @ new_entries (host_tokens q)\<rparr>)"
  by (simp add: parse_servers_eq Let_def)

lemma parse_servers_empty:
  "host_tokens q = [] \<Longrightarrow> parse_servers q cfg = Inl (EmptyServerList, q, cfg)"
  by (simp add: parse_servers_eq Let_def new_entries_def)

lemma parse_servers_block:
  "host_tokens q \<noteq> [] \<Longrightarrow> pos q + length (host_tokens q) < toksz q \<Longrightarrow>
   toks q ! (pos q + length (host_tokens q)) = ''{'' \<Longrightarrow>
   parse_server_args (q\<lparr>pos := pos q + length (host_tokens q) + 1\<rparr>)
     (cfg\<lparr>urls := urls cfg @ new_entries (host_tokens q)\<rparr>) (length (host_tokens q)) =
     Inr (p3, cfg3) \<Longrightarrow>
   pos p3 < toksz p3 \<Longrightarrow> toks p3 ! pos p3 = '';'' \<Longrightarrow>
   parse_servers q cfg = Inr (p3\<lparr>pos := pos p3 + 1\<rparr>, cfg3)"
  by (simp add: parse_servers_eq Let_def)

subsection \<open>Facts about the layout statement\<close>


lemma statement_layout:
  "pos p < toksz p \<Longrightarrow> toks p ! pos p = ''layout'' \<Longrightarrow>
   statement fl p cfg = parse_layout fl (p\<lparr>pos := pos p + 1\<rparr>) cfg"
  by (simp add: statement_def tok_eq_adv_def)

lemma parse_layout_eq:
  "parse_layout fl p cfg =
     (if \<not> pos p < toksz p then Inl (UnexpectedEOF, p, cfg)
      else if toks p ! pos p \<noteq> ''{'' then Inl (UnexpectedToken, p, cfg)
      else if \<not> pos p + 1 < toksz p then Inl (AssertionFailure, p\<lparr>pos := pos p + 1\<rparr>, cfg)
      else if toks p ! (pos p + 1) = ''}'' then Inr (p\<lparr>pos := pos p + 2\<rparr>, cfg)
      else if draw cfg \<noteq> None then Inl (DuplicateSection, p\<lparr>pos := pos p + 1\<rparr>, cfg)
      else
        (case layout_loop fl (p\<lparr>pos := pos p + 1\<rparr>) \<lparr>header = False, errlog = 0, box = []\<rparr> of
           Inl (e, p3, d) \<Rightarrow> Inl (e, p3, cfg\<lparr>draw := Some d\<rparr>)
         | Inr (p3, d) \<Rightarrow>
             (case tok_expect_adv p3 ''}'' of
                Inl e \<Rightarrow> Inl (e, p3, cfg\<lparr>draw := Some d\<rparr>)
              | Inr p4 \<Rightarrow>
                  (case tok_expect_adv p4 '';'' of
                     Inl e \<Rightarrow> Inl (e, p4, cfg\<lparr>draw := Some d\<rparr>)
                   | Inr p5 \<Rightarrow> Inr (p5, cfg\<lparr>draw := Some d\<rparr>)))))"
  by (simp add: parse_layout_def tok_expect_adv_def tok_expect_def tok_nadv_def tok_eq_adv_def
           eval_nat_numeral)







lemma parse_layout_records:
  "parse_layout fl p cfg = Inr (p', cfg') \<Longrightarrow> pos p + 1 < toksz p \<Longrightarrow>
   toks p ! (pos p + 1) \<noteq> ''}'' \<Longrightarrow> draw cfg' \<noteq> None"
  by (auto simp: parse_layout_eq split: sum.splits prod.splits if_splits)

lemma layout_item_host:
  "pos p < toksz p \<Longrightarrow> toks p ! pos p = ''host'' \<Longrightarrow>
   layout_item fl p d = parse_layout_host fl (p\<lparr>pos := pos p + 1\<rparr>) d"
  by (simp add: layout_item_def tok_eq_adv_def)


subsection \<open>Facts about box definitions\<close>

text \<open>
  The bitwise OR, starting from \<open>a\<close>, of the macros of the option keywords \<open>ks\<close> of
  category \<open>c\<close>.
\<close>

definition or_flags :: "flags \<Rightarrow> drawcat \<Rightarrow> 32 word \<Rightarrow> string list \<Rightarrow> 32 word" where
  "or_flags fl c a ks =
     foldl (\<lambda>a k. a OR (case map_of (options c) k of Some opt \<Rightarrow> fl c opt | None \<Rightarrow> 0)) a ks"

definition listed_flags :: "flags \<Rightarrow> drawcat \<Rightarrow> string list \<Rightarrow> 32 word" where
  "listed_flags fl c ks = or_flags fl c 0 ks"

definition option_keyword :: "drawcat \<Rightarrow> string \<Rightarrow> bool" where
  "option_keyword c k \<longleftrightarrow> map_of (options c) k \<noteq> None"

lemma terminator_no_option [simp]:
  "map_of (options c) '';'' = None" "map_of (options c) ''}'' = None"
  by (cases c; simp)+

lemma cursor_tokens:
  "drop (pos p) (toks p) = t # rest \<Longrightarrow>
   pos p < toksz p \<and> toks p ! pos p = t \<and> drop (pos (p\<lparr>pos := pos p + 1\<rparr>)) (toks (p\<lparr>pos := pos p + 1\<rparr>)) = rest"
proof -
  assume a: "drop (pos p) (toks p) = t # rest"
  then have lt: "pos p < length (toks p)"
    by (metis drop_all list.distinct(1) not_le)
  from a have "toks p ! pos p = t"
    by (metis lt Cons_nth_drop_Suc list.inject)
  moreover from a have "drop (Suc (pos p)) (toks p) = rest"
    by (metis lt Cons_nth_drop_Suc list.inject)
  ultimately show ?thesis using lt by (simp add: toksz_def)
qed

lemma box_options_listed:
  "\<forall>k \<in> set ks. option_keyword c k \<Longrightarrow> drop (pos p) (toks p) = ks @ t # rest \<Longrightarrow>
   box_options fl c p a =
     (if t = '';'' \<or> t = ''}'' then Inr (p\<lparr>pos := pos p + length ks\<rparr>, or_flags fl c a ks)
      else if option_keyword c t
      then box_options fl c (p\<lparr>pos := pos p + length ks + 1\<rparr>)
             (or_flags fl c a (ks @ [t]))
      else Inl (UnknownToken, p\<lparr>pos := pos p + length ks\<rparr>, or_flags fl c a ks))"
proof (induction ks arbitrary: p a)
  case Nil
  from cursor_tokens [of p t rest] Nil.prems
  have "pos p < toksz p" "toks p ! pos p = t" by simp_all
  then show ?case
    by (subst box_options_unfold)
       (auto simp: or_flags_def option_keyword_def split: option.splits)
next
  case (Cons k ks)
  from cursor_tokens [of p k "ks @ t # rest"] Cons.prems
  have c: "pos p < toksz p" "toks p ! pos p = k"
    "drop (pos (p\<lparr>pos := pos p + 1\<rparr>)) (toks (p\<lparr>pos := pos p + 1\<rparr>)) = ks @ t # rest"
    by simp_all
  from Cons.prems obtain opt where opt: "map_of (options c) k = Some opt"
    by (auto simp: option_keyword_def)
  have "box_options fl c p a = box_options fl c (p\<lparr>pos := pos p + 1\<rparr>) (a OR fl c opt)"
    using c opt by (subst box_options_unfold) simp
  also from Cons.prems have "\<forall>k \<in> set ks. option_keyword c k" by simp
  note Cons.IH [OF this c(3), of "a OR fl c opt"]
  finally show ?case
    using opt by (simp add: or_flags_def)
qed

lemma bit_or_flags:
  "bit (or_flags fl c a ks) n \<longleftrightarrow>
     bit a n \<or> (\<exists>k \<in> set ks. bit (case map_of (options c) k of Some opt \<Rightarrow> fl c opt | None \<Rightarrow> 0) n)"
proof (induction ks arbitrary: a)
  case Nil
  then show ?case by (simp add: or_flags_def)
next
  case (Cons k ks)
  have "or_flags fl c a (k # ks) =
        or_flags fl c (a OR (case map_of (options c) k of Some opt \<Rightarrow> fl c opt | None \<Rightarrow> 0)) ks"
    by (simp add: or_flags_def)
  then show ?case
    by (auto simp: Cons.IH bit_or_iff)
qed

lemma or_flags_set:
  "set ks = set ks' \<Longrightarrow> or_flags fl c a ks = or_flags fl c a ks'"
  by (rule bit_eqI) (simp add: bit_or_flags)

lemma categories_distinct: "distinct (map fst categories)"
  by (simp add: categories_def)

lemma category_lookup: "(kw, c) \<in> set categories \<Longrightarrow> map_of categories kw = Some c"
  by (rule map_of_is_SomeI [OF categories_distinct])

lemma box_def_eq:
  "pos p < toksz p \<Longrightarrow>
   box_def fl p d =
     (case map_of categories (toks p ! pos p) of
        None \<Rightarrow> Inl (UnknownToken, p, push_box d DRAWCAT_CPU 0)
      | Some c \<Rightarrow>
          (case box_options fl c (p\<lparr>pos := pos p + 1\<rparr>)
                  (if c = DRAWCAT_HOST then fl DRAWCAT_HOST OPT_ACCESS else 0) of
             Inl (e, p2, a) \<Rightarrow> Inl (e, p2, push_box d c a)
           | Inr (p2, a) \<Rightarrow> Inr (p2, push_box d c a)))"
  by (simp add: box_def_def tok_chain_eq tok_unknown_def split: option.splits)

subsection \<open>Legal options\<close>

text \<open>
  The option keywords that the table of the spec (4.4) allows for each category; the
  \<^verbatim>\<open>host\<close> category has its fixed access flag only.
\<close>

fun legal :: "drawcat \<Rightarrow> opt list" where
  "legal DRAWCAT_CPU = [OPT_QMIN_BARS, OPT_QMIN, OPT_MIN, OPT_HOUR, OPT_DAY, OPT_WEEK, OPT_YEAR]"
| "legal DRAWCAT_MEM = [OPT_QMIN_BARS, OPT_QMIN, OPT_MIN, OPT_HOUR, OPT_DAY, OPT_WEEK, OPT_YEAR]"
| "legal DRAWCAT_PROCS = [OPT_QMIN_BARS, OPT_QMIN, OPT_MIN, OPT_HOUR, OPT_DAY, OPT_WEEK, OPT_YEAR]"
| "legal DRAWCAT_RPROCS = [OPT_QMIN_BARS, OPT_QMIN, OPT_MIN, OPT_HOUR, OPT_DAY, OPT_WEEK, OPT_YEAR]"
| "legal DRAWCAT_FILES = [OPT_QMIN_BARS, OPT_QMIN, OPT_MIN, OPT_HOUR, OPT_DAY, OPT_WEEK, OPT_YEAR]"
| "legal DRAWCAT_NET = [OPT_QMIN, OPT_MIN, OPT_HOUR, OPT_DAY, OPT_WEEK, OPT_YEAR]"
| "legal DRAWCAT_DISC = [OPT_QMIN, OPT_MIN, OPT_HOUR, OPT_DAY, OPT_WEEK, OPT_YEAR]"
| "legal DRAWCAT_LINK = [OPT_IP, OPT_STATE, OPT_ACCESS]"
| "legal DRAWCAT_HOST = [OPT_ACCESS]"

definition legal_mask :: "flags \<Rightarrow> drawcat \<Rightarrow> 32 word" where
  "legal_mask fl c = foldr (\<lambda>k m. fl c k OR m) (legal c) 0"

text \<open>A box is legal when its options hold no bit outside the mask of its category.\<close>

definition box_legal :: "flags \<Rightarrow> drawbox \<Rightarrow> bool" where
  "box_legal fl b \<longleftrightarrow>
     args b AND NOT (legal_mask fl (cat b)) = 0 \<and>
     (cat b = DRAWCAT_HOST \<longrightarrow> args b = fl DRAWCAT_HOST OPT_ACCESS)"

definition draw_legal :: "flags \<Rightarrow> draw \<Rightarrow> bool" where
  "draw_legal fl d \<longleftrightarrow> (\<forall>b \<in> set (box d). box_legal fl b)"

definition config_legal :: "flags \<Rightarrow> config \<Rightarrow> bool" where
  "config_legal fl cfg \<longleftrightarrow> (case draw cfg of None \<Rightarrow> True | Some d \<Rightarrow> draw_legal fl d)"

text \<open>The state that a parser leaves behind, whether it returned 1 or 0.\<close>

definition final :: "error \<times> parse \<times> 's + parse \<times> 's \<Rightarrow> 's" where
  "final r = (case r of Inl (e, p, s) \<Rightarrow> s | Inr (p, s) \<Rightarrow> s)"

lemma final_simps [simp]: "final (Inl (e, p, s)) = s" "final (Inr (p, s)) = s"
  by (simp_all add: final_def)

lemma within_iff:
  "(a :: 32 word) AND NOT m = 0 \<longleftrightarrow> (\<forall>n. bit a n \<longrightarrow> bit m n)"
proof (rule iffI)
  assume z: "a AND NOT m = 0"
  show "\<forall>n. bit a n \<longrightarrow> bit m n"
  proof (intro allI impI)
    fix n
    assume b: "bit a n"
    from z have "\<not> bit (a AND NOT m) n" by simp
    with b bit_imp_le_length [OF b] show "bit m n"
      by (simp add: bit_and_iff bit_not_iff)
  qed
next
  assume "\<forall>n. bit a n \<longrightarrow> bit m n"
  then show "a AND NOT m = 0"
    by (auto simp: bit_eq_iff bit_and_iff bit_not_iff)
qed

lemma bit_foldr_or:
  "bit (foldr (\<lambda>k m. f k OR m) ks (0 :: 32 word)) n \<longleftrightarrow> (\<exists>k \<in> set ks. bit (f k) n)"
  by (induction ks) (auto simp: bit_or_iff)

lemma bit_legal_mask:
  "bit (legal_mask fl c) n \<longleftrightarrow> (\<exists>k \<in> set (legal c). bit (fl c k) n)"
  by (simp add: legal_mask_def bit_foldr_or)

lemma options_legal:
  "map_of (options c) k = Some opt \<Longrightarrow> opt \<in> set (legal c)"
  by (cases c) (auto split: if_splits)

lemma flag_within:
  "map_of (options c) k = Some opt \<Longrightarrow> fl c opt AND NOT (legal_mask fl c) = 0"
  by (auto simp: within_iff bit_legal_mask dest: options_legal)

lemma or_within:
  "(a :: 32 word) AND NOT m = 0 \<Longrightarrow> f AND NOT m = 0 \<Longrightarrow> (a OR f) AND NOT m = 0"
  by (auto simp: within_iff bit_or_iff)

lemma box_options_within:
  "a AND NOT (legal_mask fl c) = 0 \<Longrightarrow>
   (case box_options fl c p a of
      Inl (e, p', a') \<Rightarrow> a' AND NOT (legal_mask fl c) = 0
    | Inr (p', a') \<Rightarrow> a' AND NOT (legal_mask fl c) = 0)"
proof (induction "toksz p - pos p" arbitrary: p a rule: less_induct)
  case less
  show ?case
  proof (cases "pos p < toksz p \<and> map_of (options c) (toks p ! pos p) \<noteq> None")
    case False
    with less.prems show ?thesis
      by (subst box_options_unfold) auto
  next
    case True
    then obtain k where k: "map_of (options c) (toks p ! pos p) = Some k"
      by auto
    let ?q = "p\<lparr>pos := pos p + 1\<rparr>"
    have "toksz ?q - pos ?q < toksz p - pos p"
      using True by auto
    moreover have "(a OR fl c k) AND NOT (legal_mask fl c) = 0"
      using less.prems k by (intro or_within flag_within)
    ultimately have "case box_options fl c ?q (a OR fl c k) of
        Inl (e, p', a') \<Rightarrow> a' AND NOT (legal_mask fl c) = 0
      | Inr (p', a') \<Rightarrow> a' AND NOT (legal_mask fl c) = 0"
      by (rule less.hyps)
    then show ?thesis
      using True k by (subst box_options_unfold) simp
  qed
qed

lemma box_options_host:
  "box_options fl DRAWCAT_HOST p a =
     (if pos p < toksz p \<and> toks p ! pos p \<noteq> '';'' \<and> toks p ! pos p \<noteq> ''}''
      then Inl (UnknownToken, p, a) else Inr (p, a))"
  by (subst box_options_unfold) simp

lemma host_access_within: "fl DRAWCAT_HOST OPT_ACCESS AND NOT (legal_mask fl DRAWCAT_HOST) = 0"
  by (simp add: legal_mask_def)

lemma draw_legal_push:
  "draw_legal fl d \<Longrightarrow> box_legal fl \<lparr>cat = c, args = a\<rparr> \<Longrightarrow> draw_legal fl (push_box d c a)"
  by (simp add: draw_legal_def push_box_def)

lemma box_legal_zero: "box_legal fl \<lparr>cat = DRAWCAT_CPU, args = 0\<rparr>"
  by (simp add: box_legal_def)

lemma box_def_legal:
  assumes "draw_legal fl d"
  shows "draw_legal fl (final (box_def fl p d))"
proof (cases "tok_chain categories p")
  case (Inl e)
  with assms show ?thesis
    by (simp add: box_def_def draw_legal_push box_legal_zero)
next
  case (Inr r)
  obtain found p1 where r: "r = (found, p1)" by (cases r)
  show ?thesis
  proof (cases found)
    case None
    with Inr r assms show ?thesis
      by (simp add: box_def_def draw_legal_push box_legal_zero)
  next
    case (Some c)
    show ?thesis
    proof (cases "c = DRAWCAT_HOST")
      case True
      with Inr r Some assms show ?thesis
        by (simp add: box_def_def box_options_host draw_legal_push box_legal_def
              host_access_within)
    next
      case False
      have "(0 :: 32 word) AND NOT (legal_mask fl c) = 0" by simp
      from box_options_within [OF this, of p1] False Inr r Some assms show ?thesis
        by (auto simp: box_def_def draw_legal_push box_legal_def split: sum.splits)
    qed
  qed
qed


lemma layout_host_loop_legal:
  "draw_legal fl d \<Longrightarrow> draw_legal fl (final (layout_host_loop fl p d))"
proof (induction "toksz p - pos p" arbitrary: p d rule: less_induct)
  case less
  show ?case
  proof (cases "pos p < toksz p")
    case False
    with less.prems show ?thesis
      by (subst layout_host_loop_unfold) simp
  next
    case True
    from box_def_legal [OF less.prems, of p] have bd: "draw_legal fl (final (box_def fl p d))" .
    show ?thesis
    proof (cases "box_def fl p d")
      case (Inl f)
      with bd True show ?thesis
        by (subst layout_host_loop_unfold) simp
    next
      case (Inr r)
      obtain p1 d1 where r: "r = (p1, d1)" by (cases r)
      from bd Inr r have d1: "draw_legal fl d1" by simp
      from Inr r have a1: "advanced p p1" "pos p < pos p1"
        by (auto dest: box_def_advanced)
      show ?thesis
      proof (cases "separator p1")
        case (Closing q)
        with Inr r True d1 show ?thesis
          by (subst layout_host_loop_unfold) simp
      next
        case (Next q)
        then have a2: "advanced p1 q" "pos p1 < pos q"
          by (auto dest: separator_Next)
        have "toksz q - pos q < toksz p - pos p"
          using a1 a2 True by (auto simp: advanced_def toksz_def)
        from less.hyps [OF this d1] Inr r True Next show ?thesis
          by (subst layout_host_loop_unfold) simp
      next
        case (Broken e q)
        with Inr r True d1 show ?thesis
          by (subst layout_host_loop_unfold) simp
      qed
    qed
  qed
qed

lemma layout_host_loop_legalD:
  "draw_legal fl d \<Longrightarrow> layout_host_loop fl p d = Inl (e, p', d') \<Longrightarrow> draw_legal fl d'"
  "draw_legal fl d \<Longrightarrow> layout_host_loop fl p d = Inr (p', d') \<Longrightarrow> draw_legal fl d'"
  using layout_host_loop_legal [of fl d p] by auto

lemma parse_layout_host_legal:
  "draw_legal fl d \<Longrightarrow> draw_legal fl (final (parse_layout_host fl p d))"
  by (auto simp: parse_layout_host_def split: sum.splits prod.splits
           dest: layout_host_loop_legalD)

lemma parse_layout_host_legalD:
  "draw_legal fl d \<Longrightarrow> parse_layout_host fl p d = Inl (e, p', d') \<Longrightarrow> draw_legal fl d'"
  "draw_legal fl d \<Longrightarrow> parse_layout_host fl p d = Inr (p', d') \<Longrightarrow> draw_legal fl d'"
  using parse_layout_host_legal [of fl d p] by auto

lemma draw_legal_fields [simp]:
  "draw_legal fl (d\<lparr>header := h\<rparr>) = draw_legal fl d"
  "draw_legal fl (d\<lparr>errlog := n\<rparr>) = draw_legal fl d"
  by (simp_all add: draw_legal_def)

lemma layout_item_legal:
  "draw_legal fl d \<Longrightarrow> draw_legal fl (final (layout_item fl p d))"
  by (auto simp: layout_item_def parse_layout_host_legal split: sum.splits prod.splits)

lemma layout_loop_legal:
  "draw_legal fl d \<Longrightarrow> draw_legal fl (final (layout_loop fl p d))"
proof (induction "toksz p - pos p" arbitrary: p d rule: less_induct)
  case less
  show ?case
  proof (cases "pos p < toksz p")
    case False
    with less.prems show ?thesis
      by (subst layout_loop_unfold) simp
  next
    case True
    from layout_item_legal [OF less.prems, of p]
    have bd: "draw_legal fl (final (layout_item fl p d))" .
    show ?thesis
    proof (cases "layout_item fl p d")
      case (Inl f)
      with bd True show ?thesis
        by (subst layout_loop_unfold) simp
    next
      case (Inr r)
      obtain p1 d1 where r: "r = (p1, d1)" by (cases r)
      from bd Inr r have d1: "draw_legal fl d1" by simp
      from Inr r have a1: "advanced p p1" "pos p < pos p1"
        by (auto dest: layout_item_advanced)
      show ?thesis
      proof (cases "separator p1")
        case (Closing q)
        with Inr r True d1 show ?thesis
          by (subst layout_loop_unfold) simp
      next
        case (Next q)
        then have a2: "advanced p1 q" "pos p1 < pos q"
          by (auto dest: separator_Next)
        have "toksz q - pos q < toksz p - pos p"
          using a1 a2 True by (auto simp: advanced_def toksz_def)
        from less.hyps [OF this d1] Inr r True Next show ?thesis
          by (subst layout_loop_unfold) simp
      next
        case (Broken e q)
        with Inr r True d1 show ?thesis
          by (subst layout_loop_unfold) simp
      qed
    qed
  qed
qed

lemma layout_loop_legalD:
  "layout_loop fl p \<lparr>header = False, errlog = 0, box = []\<rparr> = Inl (e, p', d') \<Longrightarrow> draw_legal fl d'"
  "layout_loop fl p \<lparr>header = False, errlog = 0, box = []\<rparr> = Inr (p', d') \<Longrightarrow> draw_legal fl d'"
  using layout_loop_legal [of fl "\<lparr>header = False, errlog = 0, box = []\<rparr>" p]
  by (auto simp: draw_legal_def)

lemma parse_layout_legal:
  "config_legal fl cfg \<Longrightarrow> config_legal fl (final (parse_layout fl p cfg))"
  by (auto simp: parse_layout_def config_legal_def split: sum.splits prod.splits
           dest: layout_loop_legalD)

lemma parse_layout_legalD:
  "config_legal fl cfg \<Longrightarrow> parse_layout fl p cfg = Inl (e, p', cfg') \<Longrightarrow> config_legal fl cfg'"
  "config_legal fl cfg \<Longrightarrow> parse_layout fl p cfg = Inr (p', cfg') \<Longrightarrow> config_legal fl cfg'"
  using parse_layout_legal [of fl cfg p] by auto

lemma parse_server_args_final_draw:
  "draw (final (parse_server_args p cfg n)) = draw cfg"
  by (auto simp: parse_server_args_def split: sum.splits prod.splits)

lemma parse_server_args_drawD:
  "parse_server_args p cfg n = Inl (e, p', cfg') \<Longrightarrow> draw cfg' = draw cfg"
  "parse_server_args p cfg n = Inr (p', cfg') \<Longrightarrow> draw cfg' = draw cfg"
  using parse_server_args_final_draw [of p cfg n] by auto

lemma parse_servers_final_draw:
  "draw (final (parse_servers p cfg)) = draw cfg"
  by (auto simp: parse_servers_def servers_loop_eq split: sum.splits prod.splits
           dest: parse_server_args_drawD)

lemma parse_waittime_final_draw:
  "draw (final (parse_waittime p cfg)) = draw cfg"
  by (auto simp: parse_waittime_def split: sum.splits prod.splits)

lemma draw_config_legal: "draw cfg' = draw cfg \<Longrightarrow> config_legal fl cfg \<Longrightarrow> config_legal fl cfg'"
  by (simp add: config_legal_def)

lemma statement_legal:
  "config_legal fl cfg \<Longrightarrow> config_legal fl (final (statement fl p cfg))"
proof -
  assume legal: "config_legal fl cfg"
  have s: "config_legal fl (final (parse_servers q cfg))" for q
    using parse_servers_final_draw legal by (rule draw_config_legal)
  have w: "config_legal fl (final (parse_waittime q cfg))" for q
    using parse_waittime_final_draw legal by (rule draw_config_legal)
  have l: "config_legal fl (final (parse_layout fl q cfg))" for q
    using legal by (rule parse_layout_legal)
  from legal s w l show ?thesis
    by (auto simp: statement_def tok_eq_adv_def)
qed

lemma config_loop_legal:
  "config_legal fl cfg \<Longrightarrow> config_legal fl (final (config_loop fl p cfg))"
proof (induction fl p cfg rule: config_loop.induct)
  case (1 fl p cfg)
  show ?case
  proof (cases "pos p < toksz p")
    case False
    with "1.prems" show ?thesis
      by (subst config_loop.simps) simp
  next
    case True
    from statement_legal [OF "1.prems", of p]
    have st: "config_legal fl (final (statement fl p cfg))" .
    show ?thesis
    proof (cases "statement fl p cfg")
      case (Inl f)
      with st True show ?thesis
        by (subst config_loop.simps) simp
    next
      case (Inr r)
      obtain p1 cfg1 where r: "r = (p1, cfg1)" by (cases r)
      from st Inr r have "config_legal fl cfg1" by simp
      from "1.IH" [OF True Inr r [symmetric] this] Inr r True show ?thesis
        by (subst config_loop.simps) simp
    qed
  qed
qed

lemma parse_tokens_legal:
  "parse_tokens fl ts argv = Inr cfg \<Longrightarrow> config_legal fl cfg"
proof -
  have "config_legal fl config_init"
    by (simp add: config_legal_def config_init_def)
  from config_loop_legal [OF this, of "\<lparr>toks = ts, pos = 0\<rparr>"]
  show "parse_tokens fl ts argv = Inr cfg \<Longrightarrow> config_legal fl cfg"
    by (auto simp: parse_tokens_def config_finish_def config_cmdline_def config_legal_def
             split: sum.splits prod.splits if_splits)
qed

lemma config_parse_legal:
  "config_parse fl f argv = Inr cfg \<Longrightarrow> config_legal fl cfg"
  by (cases f)
     (auto simp: config_parse_def config_cmdline_def config_legal_def config_init_def
           split: if_splits dest: parse_tokens_legal)


text \<open>
  \<open>host_steps fl n p d\<close> is the state of the loop of \<^verbatim>\<open>parse_layout_host\<close> after \<open>n\<close>
  box definitions, each followed by \<^verbatim>\<open>;\<close> and another definition; \<open>layout_steps\<close> is
  the same for the items of the loop of \<^verbatim>\<open>parse_layout\<close>.
\<close>

fun host_steps :: "flags \<Rightarrow> nat \<Rightarrow> parse \<Rightarrow> draw \<Rightarrow> (parse \<times> draw) option" where
  "host_steps fl 0 p d = Some (p, d)"
| "host_steps fl (Suc n) p d =
     (if pos p < toksz p then
        (case box_def fl p d of
           Inl _ \<Rightarrow> None
         | Inr (p1, d1) \<Rightarrow>
             (case separator p1 of Next q \<Rightarrow> host_steps fl n q d1 | _ \<Rightarrow> None))
      else None)"

fun layout_steps :: "flags \<Rightarrow> nat \<Rightarrow> parse \<Rightarrow> draw \<Rightarrow> (parse \<times> draw) option" where
  "layout_steps fl 0 p d = Some (p, d)"
| "layout_steps fl (Suc n) p d =
     (if pos p < toksz p then
        (case layout_item fl p d of
           Inl _ \<Rightarrow> None
         | Inr (p1, d1) \<Rightarrow>
             (case separator p1 of Next q \<Rightarrow> layout_steps fl n q d1 | _ \<Rightarrow> None))
      else None)"

lemma host_steps_loop:
  "host_steps fl n p d = Some (q, d') \<Longrightarrow> layout_host_loop fl p d = layout_host_loop fl q d'"
proof (induction n arbitrary: p d)
  case 0
  then show ?case by simp
next
  case (Suc n)
  then show ?case
    by (subst layout_host_loop_unfold)
       (auto split: if_splits sum.splits separation.splits)
qed

lemma layout_steps_loop:
  "layout_steps fl n p d = Some (q, d') \<Longrightarrow> layout_loop fl p d = layout_loop fl q d'"
proof (induction n arbitrary: p d)
  case 0
  then show ?case by simp
next
  case (Suc n)
  then show ?case
    by (subst layout_loop_unfold)
       (auto split: if_splits sum.splits separation.splits)
qed

lemma host_steps_toksz:
  "host_steps fl n p d = Some (q, d') \<Longrightarrow> toksz q = toksz p"
proof (induction n arbitrary: p d)
  case 0
  then show ?case by simp
next
  case (Suc n)
  then show ?case
    by (auto split: if_splits sum.splits separation.splits
             dest!: box_def_advanced separator_Next simp: advanced_def toksz_def)
qed

lemma layout_steps_toksz:
  "layout_steps fl n p d = Some (q, d') \<Longrightarrow> toksz q = toksz p"
proof (induction n arbitrary: p d)
  case 0
  then show ?case by simp
next
  case (Suc n)
  then show ?case
    by (auto split: if_splits sum.splits separation.splits
             dest!: layout_item_advanced separator_Next simp: advanced_def toksz_def)
qed

lemma box_def_unknown:
  assumes toks: "drop (pos r) (toks r) = kw # ks @ t # rest"
    and cat: "(kw, c) \<in> set categories" and opts: "\<forall>k \<in> set ks. option_keyword c k"
    and bad: "\<not> option_keyword c t" "t \<noteq> '';''" "t \<noteq> ''}''"
  shows "\<exists>d'. box_def fl r d = Inl (UnknownToken, r\<lparr>pos := pos r + 1 + length ks\<rparr>, d')"
proof -
  from cursor_tokens [OF toks]
  have c: "pos r < toksz r" "toks r ! pos r = kw"
    "drop (pos (r\<lparr>pos := pos r + 1\<rparr>)) (toks (r\<lparr>pos := pos r + 1\<rparr>)) = ks @ t # rest"
    by simp_all
  from cat have look: "map_of categories kw = Some c"
    by (rule category_lookup)
  from bad box_options_listed [OF opts c(3), of fl]
  have "box_options fl c (r\<lparr>pos := pos r + 1\<rparr>) a =
          Inl (UnknownToken, r\<lparr>pos := pos r + 1 + length ks\<rparr>, or_flags fl c a ks)" for a
    by simp
  with c look show ?thesis
    by (simp add: box_def_eq)
qed

lemma unknown_in_host_block:
  assumes host: "pos q + 2 < toksz q" "toks q ! pos q = ''host''" "toks q ! (pos q + 1) = ''{''"
      "toks q ! (pos q + 2) \<noteq> ''}''"
    and boxes: "host_steps fl j (q\<lparr>pos := pos q + 2\<rparr>) dq = Some (r, dr)"
    and bd: "box_def fl r dr = Inl (UnknownToken, r', d')" and r: "pos r < toksz r"
  shows "layout_item fl q dq = Inl (UnknownToken, r', d')"
proof -
  have "layout_host_loop fl r dr = Inl (UnknownToken, r', d')"
    using bd r by (subst layout_host_loop_unfold) simp
  with host_steps_loop [OF boxes]
  have "layout_host_loop fl (q\<lparr>pos := pos q + 2\<rparr>) dq = Inl (UnknownToken, r', d')"
    by simp
  then have "parse_layout_host fl (q\<lparr>pos := pos q + 1\<rparr>) dq = Inl (UnknownToken, r', d')"
    using host
    by (simp add: parse_layout_host_def tok_expect_adv_def tok_expect_def tok_nadv_def
          tok_eq_def eval_nat_numeral)
  then show ?thesis
    using host by (simp add: layout_item_host)
qed

lemma unknown_in_layout:
  assumes layout: "pos p + 2 < toksz p" "toks p ! pos p = ''layout''" "toks p ! (pos p + 1) = ''{''"
      "toks p ! (pos p + 2) \<noteq> ''}''" "draw cfg = None"
    and items: "layout_steps fl i (p\<lparr>pos := pos p + 2\<rparr>) \<lparr>header = False, errlog = 0, box = []\<rparr> =
                  Some (q, dq)"
    and item: "layout_item fl q dq = Inl (UnknownToken, r', d')" and q: "pos q < toksz q"
  shows "statement fl p cfg = Inl (UnknownToken, r', cfg\<lparr>draw := Some d'\<rparr>)"
proof -
  have "layout_loop fl q dq = Inl (UnknownToken, r', d')"
    using item q by (subst layout_loop_unfold) simp
  with layout_steps_loop [OF items]
  have "layout_loop fl (p\<lparr>pos := pos p + 2\<rparr>) \<lparr>header = False, errlog = 0, box = []\<rparr> =
          Inl (UnknownToken, r', d')"
    by simp
  then have "parse_layout fl (p\<lparr>pos := pos p + 1\<rparr>) cfg =
               Inl (UnknownToken, r', cfg\<lparr>draw := Some d'\<rparr>)"
    using layout
    by (simp add: parse_layout_def tok_expect_adv_def tok_expect_def tok_nadv_def
          tok_eq_adv_def eval_nat_numeral)
  then show ?thesis
    using layout by (simp add: statement_layout)
qed




section \<open>Properties\<close>

subsection \<open>The command line\<close>

text \<open>
  C5. When the file does not exist (\<^verbatim>\<open>open\<close> fails with \<^verbatim>\<open>ENOENT\<close>) and there is
  at least one argument, \<^verbatim>\<open>config_parse\<close> succeeds: the configuration has one entry per
  argument, in the order of the arguments and with no waittime of its own, no layout, and
  the default global waittime 60.
\<close>

theorem config_parse_no_file:
  "argv \<noteq> [] \<Longrightarrow>
   config_parse fl NoSuchFile argv =
     Inr \<lparr>urls = map (\<lambda>a. \<lparr>url = a, waittime = 0\<rparr>) argv, waittime = 60, draw = None\<rparr>"
  by (simp add: config_parse_def config_cmdline_def config_init_def)

theorem config_parse_no_file_witness:
  "[''h1'', ''h2''] \<noteq> [] \<and>
   config_parse one_bit_flags NoSuchFile [''h1'', ''h2''] =
     Inr \<lparr>urls = [\<lparr>url = ''h1'', waittime = 0\<rparr>, \<lparr>url = ''h2'', waittime = 0\<rparr>],
          waittime = 60, draw = None\<rparr>"
  using config_parse_no_file [of "[''h1'', ''h2'']" one_bit_flags] by simp

text \<open>
  C4. When the file parses and at least one argument is given, the result has exactly one
  entry per argument, in order and with no waittime of its own, in place of the servers
  of the file; the layout and the global waittime are those of the file. The result for
  the file alone is the result of \<^verbatim>\<open>config_parse\<close> with no argument.
\<close>

theorem config_parse_argv_override:
  "config_parse fl (Bytes bytes) [] = Inr cfg \<Longrightarrow> argv \<noteq> [] \<Longrightarrow>
   config_parse fl (Bytes bytes) argv =
     Inr (cfg\<lparr>urls := map (\<lambda>a. \<lparr>url = a, waittime = 0\<rparr>) argv\<rparr>)"
  by (auto simp: config_parse_def parse_tokens_def config_finish_def config_cmdline_def
           split: sum.splits prod.splits if_splits)

theorem config_parse_argv_override_witness:
  "config_parse one_bit_flags (Bytes ''waittime 20 ; servers x y ; layout { header } ;'') [] =
     Inr \<lparr>urls = [\<lparr>url = ''x'', waittime = 0\<rparr>, \<lparr>url = ''y'', waittime = 0\<rparr>], waittime = 20,
          draw = Some \<lparr>header = True, errlog = 0, box = []\<rparr>\<rparr> \<and>
   [''z''] \<noteq> [] \<and>
   config_parse one_bit_flags (Bytes ''waittime 20 ; servers x y ; layout { header } ;'') [''z''] =
     Inr \<lparr>urls = [\<lparr>url = ''z'', waittime = 0\<rparr>], waittime = 20,
          draw = Some \<lparr>header = True, errlog = 0, box = []\<rparr>\<rparr>"
proof -
  have parsed: "config_parse one_bit_flags
                (Bytes ''waittime 20 ; servers x y ; layout { header } ;'') [] =
     Inr \<lparr>urls = [\<lparr>url = ''x'', waittime = 0\<rparr>, \<lparr>url = ''y'', waittime = 0\<rparr>], waittime = 20,
          draw = Some \<lparr>header = True, errlog = 0, box = []\<rparr>\<rparr>"
    by code_simp
  have args: "[''z''] \<noteq> []"
    by simp
  from config_parse_argv_override [OF parsed args] parsed show ?thesis
    by simp
qed

subsection \<open>Reads at the end of the input\<close>

text \<open>
  C9. Every read of the token array should be below the token count. The parser does not
  keep to this: a file that ends right after the keyword \<^verbatim>\<open>waittime\<close> reaches
  \<^verbatim>\<open>parse_waittime\<close> with the cursor at the end, where its assertion
  \<^verbatim>\<open>p->pos < p->toksz\<close> fails; a file that ends after \<^verbatim>\<open>errlog\<close> (or after
  \<^verbatim>\<open>waittime\<close> inside a servers block) makes \<^verbatim>\<open>strtonum\<close> read
  \<^verbatim>\<open>p->toks[p->toksz]\<close>; a file that ends after a box category fails the assertion
  of \<^verbatim>\<open>tok_eq\<close>.
\<close>

theorem config_parse_reads_past_end:
  "config_parse fl (Bytes ''waittime'') argv = Inl AssertionFailure \<and>
   config_parse fl (Bytes ''layout { errlog'') argv = Inl OutOfBoundsRead \<and>
   config_parse fl (Bytes ''servers a { waittime'') argv = Inl OutOfBoundsRead \<and>
   config_parse fl (Bytes ''layout { host { cpu'') argv = Inl AssertionFailure"
  by code_simp

subsection \<open>The global waittime\<close>

text \<open>
  C6. Take any file and any top-level statement \<^verbatim>\<open>waittime N\<close> that the driver reaches
  (after \<open>k\<close> statements). If the token \<open>N\<close> parses as an integer \<open>n\<close> with
  \<open>15 \<le> n \<le> INT_MAX\<close> and \<^verbatim>\<open>;\<close> follows, the statement succeeds and leaves
  \<open>waittime = n\<close> in the configuration, which is the result when the file ends there.
  If \<open>N\<close> is not an integer, is below 15 or above \<open>INT_MAX\<close>, the parse of the file
  fails with InvalidRange.
\<close>

theorem waittime_statement:
  assumes reach: "config_steps fl k \<lparr>toks = ts, pos = 0\<rparr> config_init = Some (p, cfg)"
    and tok: "pos p + 1 < toksz p" and kw: "toks p ! pos p = ''waittime''"
  shows "(\<forall>n. integer_token (toks p ! (pos p + 1)) = Some n \<and> 15 \<le> n \<and> n \<le> INT_MAX \<and>
              pos p + 2 < toksz p \<and> toks p ! (pos p + 2) = '';'' \<longrightarrow>
              config_steps fl (Suc k) \<lparr>toks = ts, pos = 0\<rparr> config_init =
                Some (p\<lparr>pos := pos p + 3\<rparr>, cfg\<lparr>waittime := n\<rparr>) \<and>
              (pos p + 3 = toksz p \<longrightarrow> parse_tokens fl ts [] = Inr (cfg\<lparr>waittime := n\<rparr>))) \<and>
         ((case integer_token (toks p ! (pos p + 1)) of
             None \<Rightarrow> True
           | Some n \<Rightarrow> n < 15 \<or> n > INT_MAX) \<longrightarrow>
          parse_tokens fl ts argv = Inl InvalidRange)"
proof (intro conjI allI impI)
  fix n
  assume a: "integer_token (toks p ! (pos p + 1)) = Some n \<and> 15 \<le> n \<and> n \<le> INT_MAX \<and>
             pos p + 2 < toksz p \<and> toks p ! (pos p + 2) = '';''"
  have st: "statement fl p cfg = Inr (p\<lparr>pos := pos p + 3\<rparr>, cfg\<lparr>waittime := n\<rparr>)"
    using a tok kw
    by (simp add: statement_waittime parse_waittime_eq strtonum_waittime eval_nat_numeral)
  from tok have "pos p < toksz p" by simp
  from config_steps_snoc [OF reach this st]
  show steps: "config_steps fl (Suc k) \<lparr>toks = ts, pos = 0\<rparr> config_init =
           Some (p\<lparr>pos := pos p + 3\<rparr>, cfg\<lparr>waittime := n\<rparr>)" .
  assume "pos p + 3 = toksz p"
  then show "parse_tokens fl ts [] = Inr (cfg\<lparr>waittime := n\<rparr>)"
    by (intro parse_tokens_done [OF steps]) simp
next
  assume bad: "case integer_token (toks p ! (pos p + 1)) of
                 None \<Rightarrow> True
               | Some n \<Rightarrow> n < 15 \<or> n > INT_MAX"
  have st: "statement fl p cfg =
              Inl (InvalidRange, p\<lparr>pos := pos p + 1\<rparr>, cfg\<lparr>waittime := 0\<rparr>)"
    using bad tok kw
    by (auto simp: statement_waittime parse_waittime_eq strtonum_waittime split: option.splits)
  from tok have "pos p < toksz p" by simp
  from parse_tokens_fail [OF reach this st] tok
  show "parse_tokens fl ts argv = Inl InvalidRange"
    by (simp add: fatal_def)
qed

theorem waittime_statement_witness:
  "parse_tokens one_bit_flags [''waittime'', ''15'', '';''] [] =
     Inr \<lparr>urls = [], waittime = 15, draw = None\<rparr> \<and>
   parse_tokens one_bit_flags [''servers'', ''a'', '';'', ''waittime'', ''14'', '';''] [] =
     Inl InvalidRange \<and>
   parse_tokens one_bit_flags [''waittime'', ''2147483648'', '';''] [] = Inl InvalidRange \<and>
   parse_tokens one_bit_flags [''waittime'', ''soon'', '';''] [] = Inl InvalidRange"
proof -
  let ?p0 = "\<lambda>ts. \<lparr>toks = ts, pos = 0\<rparr>"
  have ok: "integer_token ''15'' = Some 15" by code_simp
  have r1: "config_steps one_bit_flags 0 (?p0 [''waittime'', ''15'', '';'']) config_init =
              Some (?p0 [''waittime'', ''15'', '';''], config_init)"
    by simp
  have r2: "config_steps one_bit_flags 1
              (?p0 [''servers'', ''a'', '';'', ''waittime'', ''14'', '';'']) config_init =
              Some (\<lparr>toks = [''servers'', ''a'', '';'', ''waittime'', ''14'', '';''], pos = 3\<rparr>,
                    config_init\<lparr>urls := [\<lparr>url = ''a'', waittime = 0\<rparr>]\<rparr>)"
    by code_simp
  have r3: "config_steps one_bit_flags 0 (?p0 [''waittime'', ''2147483648'', '';'']) config_init =
              Some (?p0 [''waittime'', ''2147483648'', '';''], config_init)"
    by simp
  have r4: "config_steps one_bit_flags 0 (?p0 [''waittime'', ''soon'', '';'']) config_init =
              Some (?p0 [''waittime'', ''soon'', '';''], config_init)"
    by simp
  have small: "integer_token ''14'' = Some 14" by code_simp
  have large: "integer_token ''2147483648'' = Some 2147483648" by code_simp
  have word: "integer_token ''soon'' = None" by code_simp
  from waittime_statement [OF r1, of "[]"] ok
  have "parse_tokens one_bit_flags [''waittime'', ''15'', '';''] [] =
          Inr \<lparr>urls = [], waittime = 15, draw = None\<rparr>"
    by (simp add: toksz_def INT_MAX_def config_init_def)
  moreover from waittime_statement [OF r2, of "[]"] small
  have "parse_tokens one_bit_flags [''servers'', ''a'', '';'', ''waittime'', ''14'', '';''] [] =
          Inl InvalidRange"
    by (simp add: toksz_def)
  moreover from waittime_statement [OF r3, of "[]"] large
  have "parse_tokens one_bit_flags [''waittime'', ''2147483648'', '';''] [] = Inl InvalidRange"
    by (simp add: toksz_def INT_MAX_def)
  moreover from waittime_statement [OF r4, of "[]"] word
  have "parse_tokens one_bit_flags [''waittime'', ''soon'', '';''] [] = Inl InvalidRange"
    by (simp add: toksz_def)
  ultimately show ?thesis by simp
qed

subsection \<open>The servers statement\<close>

text \<open>
  C7. Take any file and any \<^verbatim>\<open>servers\<close> statement that the driver reaches. Its loop
  consumes the tokens up to the first \<^verbatim>\<open>;\<close> or \<^verbatim>\<open>{\<close> (\<open>host_tokens\<close>) as
  host addresses and appends one new entry per token, in order. With at least one host
  and the terminator \<^verbatim>\<open>;\<close> the statement succeeds with exactly these entries appended.
  With no host token the statement fails with EmptyServerList, and when a terminator is
  there the parse of the file fails with EmptyServerList.
\<close>

theorem servers_statement:
  assumes reach: "config_steps fl k \<lparr>toks = ts, pos = 0\<rparr> config_init = Some (p, cfg)"
    and kw: "pos p < toksz p" "toks p ! pos p = ''servers''"
    and q: "q = p\<lparr>pos := pos p + 1\<rparr>" and hs: "hs = host_tokens q"
  shows "servers_loop q cfg 0 =
           Inr (q\<lparr>pos := pos q + length hs\<rparr>, cfg\<lparr>urls := urls cfg @ new_entries hs\<rparr>, length hs) \<and>
         (hs \<noteq> [] \<and> pos q + length hs < toksz q \<and> toks q ! (pos q + length hs) = '';'' \<longrightarrow>
            config_steps fl (Suc k) \<lparr>toks = ts, pos = 0\<rparr> config_init =
              Some (q\<lparr>pos := pos q + length hs + 1\<rparr>, cfg\<lparr>urls := urls cfg @ new_entries hs\<rparr>)) \<and>
         (hs = [] \<longrightarrow> statement fl p cfg = Inl (EmptyServerList, q, cfg)) \<and>
         (hs = [] \<and> pos q < toksz q \<longrightarrow> parse_tokens fl ts argv = Inl EmptyServerList)"
proof (intro conjI impI)
  have st: "statement fl p cfg = parse_servers q cfg"
    using kw by (simp add: statement_servers q)
  show "servers_loop q cfg 0 =
          Inr (q\<lparr>pos := pos q + length hs\<rparr>, cfg\<lparr>urls := urls cfg @ new_entries hs\<rparr>, length hs)"
    by (simp add: servers_loop_eq hs)
  {
    assume a: "hs \<noteq> [] \<and> pos q + length hs < toksz q \<and> toks q ! (pos q + length hs) = '';''"
    then have "statement fl p cfg =
            Inr (q\<lparr>pos := pos q + length hs + 1\<rparr>, cfg\<lparr>urls := urls cfg @ new_entries hs\<rparr>)"
      unfolding st hs by (intro parse_servers_plain) auto
    from config_steps_snoc [OF reach kw(1) this]
    show "config_steps fl (Suc k) \<lparr>toks = ts, pos = 0\<rparr> config_init =
            Some (q\<lparr>pos := pos q + length hs + 1\<rparr>, cfg\<lparr>urls := urls cfg @ new_entries hs\<rparr>)" .
  }
  {
    assume "hs = []"
    then show "statement fl p cfg = Inl (EmptyServerList, q, cfg)"
      unfolding st hs by (rule parse_servers_empty)
  }
  {
    assume a: "hs = [] \<and> pos q < toksz q"
    then have "statement fl p cfg = Inl (EmptyServerList, q, cfg)"
      unfolding st hs by (intro parse_servers_empty) simp
    from parse_tokens_fail [OF reach kw(1) this] a
    show "parse_tokens fl ts argv = Inl EmptyServerList"
      by (simp add: fatal_def)
  }
qed

theorem servers_statement_witness:
  "config_steps one_bit_flags 1 \<lparr>toks = [''servers'', ''x'', ''y'', '';''], pos = 0\<rparr> config_init =
     Some (\<lparr>toks = [''servers'', ''x'', ''y'', '';''], pos = 4\<rparr>,
           \<lparr>urls = [\<lparr>url = ''x'', waittime = 0\<rparr>, \<lparr>url = ''y'', waittime = 0\<rparr>],
            waittime = 60, draw = None\<rparr>) \<and>
   parse_tokens one_bit_flags [''servers'', '';''] [] = Inl EmptyServerList \<and>
   parse_tokens one_bit_flags [''waittime'', ''20'', '';'', ''servers'', ''{'', ''}'', '';''] [] =
     Inl EmptyServerList"
proof -
  let ?a = "\<lparr>toks = [''servers'', ''x'', ''y'', '';''], pos = 0\<rparr>"
  let ?b = "\<lparr>toks = [''servers'', '';''], pos = 0\<rparr>"
  let ?start = "\<lparr>toks = [''waittime'', ''20'', '';'', ''servers'', ''{'', ''}'', '';''], pos = 0\<rparr>"
  let ?c = "\<lparr>toks = [''waittime'', ''20'', '';'', ''servers'', ''{'', ''}'', '';''], pos = 3\<rparr>"
  have ha: "host_tokens (?a\<lparr>pos := pos ?a + 1\<rparr>) = [''x'', ''y'']" by code_simp
  have hb: "host_tokens (?b\<lparr>pos := pos ?b + 1\<rparr>) = []" by code_simp
  have hc: "host_tokens (?c\<lparr>pos := pos ?c + 1\<rparr>) = []" by code_simp
  have ra: "config_steps one_bit_flags 0 ?a config_init = Some (?a, config_init)" by simp
  have rb: "config_steps one_bit_flags 0 ?b config_init = Some (?b, config_init)" by simp
  have rc: "config_steps one_bit_flags 1 ?start config_init = Some (?c, config_init\<lparr>waittime := 20\<rparr>)"
    by code_simp
  have "pos ?a < toksz ?a" "toks ?a ! pos ?a = ''servers''"
    by (simp_all add: toksz_def)
  from servers_statement [OF ra this refl refl, of "[]"]
  have 1: "config_steps one_bit_flags 1 ?a config_init =
     Some (\<lparr>toks = [''servers'', ''x'', ''y'', '';''], pos = 4\<rparr>,
           \<lparr>urls = [\<lparr>url = ''x'', waittime = 0\<rparr>, \<lparr>url = ''y'', waittime = 0\<rparr>],
            waittime = 60, draw = None\<rparr>)"
    unfolding ha by (simp add: toksz_def new_entries_def config_init_def)
  have "pos ?b < toksz ?b" "toks ?b ! pos ?b = ''servers''"
    by (simp_all add: toksz_def)
  from servers_statement [OF rb this refl refl, of "[]"]
  have 2: "parse_tokens one_bit_flags [''servers'', '';''] [] = Inl EmptyServerList"
    unfolding hb by (simp add: toksz_def)
  have "pos ?c < toksz ?c" "toks ?c ! pos ?c = ''servers''"
    by (simp_all add: toksz_def)
  from servers_statement [OF rc this refl refl, of "[]"]
  have 3: "parse_tokens one_bit_flags
             [''waittime'', ''20'', '';'', ''servers'', ''{'', ''}'', '';''] [] =
           Inl EmptyServerList"
    unfolding hc by (simp add: toksz_def)
  from 1 2 3 show ?thesis by simp
qed

text \<open>
  C1. Take any file and any \<^verbatim>\<open>servers\<close> statement that the driver reaches, with the
  hosts \<open>hs\<close> and a trailing block whose loop ends at the closing brace with the value
  \<open>w\<close> in its variable \<^verbatim>\<open>waittime\<close>. Then the statement leaves the entries that were
  there before as they were and appends the hosts of this statement, each with waittime
  \<open>w\<close>. \<open>w\<close> is 0 (nothing set, no entry modified) for an empty block, the number \<open>n\<close>
  for the block \<^verbatim>\<open>{ waittime n }\<close> or \<^verbatim>\<open>{ waittime n ; }\<close>, and never a nonzero
  value outside 15 to \<open>INT_MAX\<close>. For every configuration and every count not above
  the number of its entries, \<^verbatim>\<open>parse_server_args\<close> writes \<open>w\<close>, if not 0, onto
  exactly the last \<open>count\<close> entries.
\<close>

theorem servers_block_waittime:
  assumes reach: "config_steps fl k \<lparr>toks = ts, pos = 0\<rparr> config_init = Some (p, cfg)"
    and kw: "pos p < toksz p" "toks p ! pos p = ''servers''"
    and q: "q = p\<lparr>pos := pos p + 1\<rparr>" and hs: "hs = host_tokens q" and some: "hs \<noteq> []"
    and brace: "pos q + length hs < toksz q" "toks q ! (pos q + length hs) = ''{''"
    and r: "r = q\<lparr>pos := pos q + length hs + 1\<rparr>"
    and block: "server_args_loop r 0 = Inr (r', w)"
    and semi: "pos r' + 1 < toksz r'" "toks r' ! (pos r' + 1) = '';''"
  shows "toks r' ! pos r' = ''}'' \<and>
         config_steps fl (Suc k) \<lparr>toks = ts, pos = 0\<rparr> config_init =
           Some (r'\<lparr>pos := pos r' + 2\<rparr>,
                 cfg\<lparr>urls := urls cfg @ map (\<lambda>h. \<lparr>url = h, waittime = w\<rparr>) hs\<rparr>) \<and>
         (w = 0 \<or> (15 \<le> w \<and> w \<le> INT_MAX)) \<and>
         (toks r ! pos r = ''}'' \<longrightarrow> w = 0) \<and>
         (\<forall>n. pos r + 2 < toksz r \<and> toks r ! pos r = ''waittime'' \<and>
              integer_token (toks r ! (pos r + 1)) = Some n \<and> 15 \<le> n \<and> n \<le> INT_MAX \<and>
              (toks r ! (pos r + 2) = ''}'' \<or>
               (toks r ! (pos r + 2) = '';'' \<and> pos r + 3 < toksz r \<and>
                toks r ! (pos r + 3) = ''}'')) \<longrightarrow> w = n) \<and>
         (\<forall>c count. count \<le> length (urls c) \<longrightarrow>
            parse_server_args r c count =
              Inr (r'\<lparr>pos := pos r' + 1\<rparr>,
                   if w = 0 then c
                   else c\<lparr>urls := take (length (urls c) - count) (urls c) @
                                  map (\<lambda>e. e\<lparr>nconfig.waittime := w\<rparr>)
                                    (drop (length (urls c) - count) (urls c))\<rparr>))"
proof -
  have st: "statement fl p cfg = parse_servers q cfg"
    using kw by (simp add: statement_servers q)
  from semi have in_range: "pos r' < toksz r'" by simp
  from server_args_loop_stop [OF block in_range]
  have closing: "toks r' ! pos r' = ''}''" .
  have args: "parse_server_args r c count =
              Inr (r'\<lparr>pos := pos r' + 1\<rparr>,
                   if w = 0 then c
                   else c\<lparr>urls := take (length (urls c) - count) (urls c) @
                                  map (\<lambda>e. e\<lparr>nconfig.waittime := w\<rparr>)
                                    (drop (length (urls c) - count) (urls c))\<rparr>)"
    if "count \<le> length (urls c)" for c count
    using that block in_range
    by (simp add: parse_server_args_eq stamp_def [abs_def])
  let ?cfg1 = "cfg\<lparr>urls := urls cfg @ new_entries hs\<rparr>"
  have new: "(if w = 0 then ?cfg1
              else ?cfg1\<lparr>urls := take (length (urls ?cfg1) - length hs) (urls ?cfg1) @
                     map (\<lambda>e. e\<lparr>nconfig.waittime := w\<rparr>)
                       (drop (length (urls ?cfg1) - length hs) (urls ?cfg1))\<rparr>) =
             cfg\<lparr>urls := urls cfg @ map (\<lambda>h. \<lparr>url = h, waittime = w\<rparr>) hs\<rparr>"
    by (simp add: new_entries_def o_def)
  have "length hs \<le> length (urls ?cfg1)"
    by (simp add: new_entries_def)
  from args [OF this]
  have pa: "parse_server_args r ?cfg1 (length hs) =
              Inr (r'\<lparr>pos := pos r' + 1\<rparr>,
                   cfg\<lparr>urls := urls cfg @ map (\<lambda>h. \<lparr>url = h, waittime = w\<rparr>) hs\<rparr>)"
    unfolding new .
  have "parse_servers q cfg =
          Inr (r'\<lparr>pos := pos r' + 1\<rparr>\<lparr>pos := pos (r'\<lparr>pos := pos r' + 1\<rparr>) + 1\<rparr>,
               cfg\<lparr>urls := urls cfg @ map (\<lambda>h. \<lparr>url = h, waittime = w\<rparr>) hs\<rparr>)"
    using some brace semi pa unfolding hs r
    by (intro parse_servers_block) auto
  then have "statement fl p cfg =
          Inr (r'\<lparr>pos := pos r' + 2\<rparr>,
               cfg\<lparr>urls := urls cfg @ map (\<lambda>h. \<lparr>url = h, waittime = w\<rparr>) hs\<rparr>)"
    by (simp add: st)
  from config_steps_snoc [OF reach kw(1) this]
  have steps: "config_steps fl (Suc k) \<lparr>toks = ts, pos = 0\<rparr> config_init =
           Some (r'\<lparr>pos := pos r' + 2\<rparr>,
                 cfg\<lparr>urls := urls cfg @ map (\<lambda>h. \<lparr>url = h, waittime = w\<rparr>) hs\<rparr>)" .
  from server_args_loop_range [OF block]
  have range: "w = 0 \<or> (15 \<le> w \<and> w \<le> INT_MAX)" .
  have empty: "w = 0" if "toks r ! pos r = ''}''"
    using block that by (subst (asm) server_args_loop_unfold) (auto split: if_splits)
  have single: "w = n"
    if "pos r + 2 < toksz r \<and> toks r ! pos r = ''waittime'' \<and>
        integer_token (toks r ! (pos r + 1)) = Some n \<and> 15 \<le> n \<and> n \<le> INT_MAX \<and>
        (toks r ! (pos r + 2) = ''}'' \<or>
         (toks r ! (pos r + 2) = '';'' \<and> pos r + 3 < toksz r \<and>
          toks r ! (pos r + 3) = ''}''))" for n
  proof -
    from that have "server_args_loop r 0 =
        Inr (r\<lparr>pos := (if toks r ! (pos r + 2) = '';'' then pos r + 3 else pos r + 2)\<rparr>, n)"
      by (intro server_args_loop_single) auto
    with block show ?thesis by simp
  qed
  from closing steps range empty single args show ?thesis
    by blast
qed


theorem servers_block_waittime_witness:
  "config_steps one_bit_flags 2
     \<lparr>toks = [''servers'', ''x'', '';'', ''servers'', ''a'', ''b'', ''c'', ''{'', ''waittime'', ''30'',
              '';'', ''}'', '';''], pos = 0\<rparr> config_init =
     Some (\<lparr>toks = [''servers'', ''x'', '';'', ''servers'', ''a'', ''b'', ''c'', ''{'', ''waittime'',
                    ''30'', '';'', ''}'', '';''], pos = 13\<rparr>,
           \<lparr>urls = [\<lparr>url = ''x'', waittime = 0\<rparr>, \<lparr>url = ''a'', waittime = 30\<rparr>,
                    \<lparr>url = ''b'', waittime = 30\<rparr>, \<lparr>url = ''c'', waittime = 30\<rparr>],
            waittime = 60, draw = None\<rparr>)"
proof -
  let ?ts = "[''servers'', ''x'', '';'', ''servers'', ''a'', ''b'', ''c'', ''{'', ''waittime'', ''30'',
              '';'', ''}'', '';'']"
  let ?p = "\<lparr>toks = ?ts, pos = 3\<rparr>"
  let ?cfg = "config_init\<lparr>urls := [\<lparr>url = ''x'', waittime = 0\<rparr>]\<rparr>"
  let ?q = "?p\<lparr>pos := pos ?p + 1\<rparr>"
  let ?r = "?q\<lparr>pos := pos ?q + length [''a'', ''b'', ''c''] + 1\<rparr>"
  have reach: "config_steps one_bit_flags 1 \<lparr>toks = ?ts, pos = 0\<rparr> config_init = Some (?p, ?cfg)"
    by code_simp
  have kw: "pos ?p < toksz ?p" "toks ?p ! pos ?p = ''servers''"
    by (simp_all add: toksz_def)
  have hs: "[''a'', ''b'', ''c''] = host_tokens ?q" by code_simp
  have some: "[''a'', ''b'', ''c''] \<noteq> []" by simp
  have brace: "pos ?q + length [''a'', ''b'', ''c''] < toksz ?q"
    "toks ?q ! (pos ?q + length [''a'', ''b'', ''c'']) = ''{''"
    by (simp_all add: toksz_def)
  have block: "server_args_loop ?r 0 = Inr (\<lparr>toks = ?ts, pos = 11\<rparr>, 30)"
    by code_simp
  have semi: "pos \<lparr>toks = ?ts, pos = 11\<rparr> + 1 < toksz \<lparr>toks = ?ts, pos = 11\<rparr>"
    "toks \<lparr>toks = ?ts, pos = 11\<rparr> ! (pos \<lparr>toks = ?ts, pos = 11\<rparr> + 1) = '';''"
    by (simp_all add: toksz_def)
  from servers_block_waittime [OF reach kw refl hs some brace refl block semi]
  show ?thesis
    by (simp add: config_init_def numeral_2_eq_2 del: config_steps.simps)
qed

subsection \<open>Layouts\<close>








subsection \<open>Boxes\<close>

text \<open>
  C10, as the code has it. For every box definition of a category other than
  \<^verbatim>\<open>host\<close> (the category keyword, option keywords of that category, then \<^verbatim>\<open>;\<close> or
  \<^verbatim>\<open>}\<close>), the options value of the new box is the bitwise OR, from zero, of the macros
  of the keywords listed; lists with the same set of keywords give the same value, so
  repeating or reordering keywords changes nothing. A \<^verbatim>\<open>host\<close> box lists no keyword
  and its options value is \<^verbatim>\<open>HOST_ACCESS\<close>.
\<close>

theorem box_options_union:
  "((kw, c) \<in> set categories \<and> c \<noteq> DRAWCAT_HOST \<and> (\<forall>k \<in> set ks. option_keyword c k) \<and>
    drop (pos p) (toks p) = kw # ks @ t # rest \<and> (t = '';'' \<or> t = ''}'') \<longrightarrow>
      box_def fl p d =
        Inr (p\<lparr>pos := pos p + 1 + length ks\<rparr>, push_box d c (listed_flags fl c ks)) \<and>
      (\<forall>ks'. set ks' = set ks \<longrightarrow> listed_flags fl c ks' = listed_flags fl c ks)) \<and>
   (drop (pos q) (toks q) = ''host'' # t' # rest' \<and> (t' = '';'' \<or> t' = ''}'') \<longrightarrow>
      box_def fl q d' =
        Inr (q\<lparr>pos := pos q + 1\<rparr>, push_box d' DRAWCAT_HOST (fl DRAWCAT_HOST OPT_ACCESS)))"
proof (intro conjI impI allI)
  assume a: "(kw, c) \<in> set categories \<and> c \<noteq> DRAWCAT_HOST \<and> (\<forall>k \<in> set ks. option_keyword c k) \<and>
    drop (pos p) (toks p) = kw # ks @ t # rest \<and> (t = '';'' \<or> t = ''}'')"
  then have d: "drop (pos p) (toks p) = kw # ks @ t # rest" by simp
  from cursor_tokens [OF d]
  have c: "pos p < toksz p" "toks p ! pos p = kw"
    "drop (pos (p\<lparr>pos := pos p + 1\<rparr>)) (toks (p\<lparr>pos := pos p + 1\<rparr>)) = ks @ t # rest"
    by simp_all
  from a have opts: "\<forall>k \<in> set ks. option_keyword c k" by simp
  from a have look: "map_of categories kw = Some c"
    by (simp add: category_lookup)
  from a box_options_listed [OF opts c(3), of fl 0]
  have "box_options fl c (p\<lparr>pos := pos p + 1\<rparr>) 0 =
          Inr (p\<lparr>pos := pos p + 1 + length ks\<rparr>, listed_flags fl c ks)"
    by (auto simp: listed_flags_def)
  with a c look
  show "box_def fl p d =
          Inr (p\<lparr>pos := pos p + 1 + length ks\<rparr>, push_box d c (listed_flags fl c ks))"
    by (simp add: box_def_eq)
next
  fix ks'
  assume "set ks' = set ks"
  then show "listed_flags fl c ks' = listed_flags fl c ks"
    unfolding listed_flags_def by (rule or_flags_set)
next
  assume a: "drop (pos q) (toks q) = ''host'' # t' # rest' \<and> (t' = '';'' \<or> t' = ''}'')"
  then have d: "drop (pos q) (toks q) = ''host'' # t' # rest'" by simp
  from cursor_tokens [OF d]
  have c: "pos q < toksz q" "toks q ! pos q = ''host''"
    "drop (pos (q\<lparr>pos := pos q + 1\<rparr>)) (toks (q\<lparr>pos := pos q + 1\<rparr>)) = [] @ t' # rest'"
    by simp_all
  from a box_options_listed [OF _ c(3), of DRAWCAT_HOST fl "fl DRAWCAT_HOST OPT_ACCESS"]
  have "box_options fl DRAWCAT_HOST (q\<lparr>pos := pos q + 1\<rparr>) (fl DRAWCAT_HOST OPT_ACCESS) =
          Inr (q\<lparr>pos := pos q + 1\<rparr>, fl DRAWCAT_HOST OPT_ACCESS)"
    by (auto simp: or_flags_def)
  with c
  show "box_def fl q d' =
          Inr (q\<lparr>pos := pos q + 1\<rparr>, push_box d' DRAWCAT_HOST (fl DRAWCAT_HOST OPT_ACCESS))"
    by (simp add: box_def_eq categories_def)
qed

theorem box_options_union_witness:
  "box_def one_bit_flags \<lparr>toks = [''cpu'', ''hour'', ''day'', ''hour'', '';'', ''}''], pos = 0\<rparr>
     \<lparr>header = False, errlog = 0, box = []\<rparr> =
     Inr (\<lparr>toks = [''cpu'', ''hour'', ''day'', ''hour'', '';'', ''}''], pos = 4\<rparr>,
          \<lparr>header = False, errlog = 0, box = [\<lparr>cat = DRAWCAT_CPU, args = 24\<rparr>]\<rparr>) \<and>
   listed_flags one_bit_flags DRAWCAT_CPU [''day'', ''hour''] = 24 \<and>
   box_def one_bit_flags \<lparr>toks = [''host'', ''}''], pos = 0\<rparr> \<lparr>header = False, errlog = 0, box = []\<rparr> =
     Inr (\<lparr>toks = [''host'', ''}''], pos = 1\<rparr>,
          \<lparr>header = False, errlog = 0, box = [\<lparr>cat = DRAWCAT_HOST, args = 4\<rparr>]\<rparr>)"
proof -
  let ?p = "\<lparr>toks = [''cpu'', ''hour'', ''day'', ''hour'', '';'', ''}''], pos = 0\<rparr>"
  let ?q = "\<lparr>toks = [''host'', ''}''], pos = 0\<rparr>"
  let ?d = "\<lparr>header = False, errlog = 0, box = []\<rparr>"
  have cat: "(''cpu'', DRAWCAT_CPU) \<in> set categories"
    by (simp add: categories_def)
  have opts: "\<forall>k \<in> set [''hour'', ''day'', ''hour'']. option_keyword DRAWCAT_CPU k"
    by (simp add: option_keyword_def)
  have tp: "drop (pos ?p) (toks ?p) = ''cpu'' # [''hour'', ''day'', ''hour''] @ '';'' # [''}'']"
    by simp
  have tq: "drop (pos ?q) (toks ?q) = ''host'' # ''}'' # []"
    by simp
  have val: "listed_flags one_bit_flags DRAWCAT_CPU [''hour'', ''day'', ''hour''] = 24"
    by code_simp
  have same: "set [''day'', ''hour''] = set [''hour'', ''day'', ''hour'']"
    by auto
  note w = box_options_union [of "''cpu''" DRAWCAT_CPU "[''hour'', ''day'', ''hour'']" ?p "'';''"
      "[''}'']" one_bit_flags ?d ?q "''}''" "[]" ?d]
  from w cat opts tp have 1: "box_def one_bit_flags ?p ?d =
      Inr (\<lparr>toks = [''cpu'', ''hour'', ''day'', ''hour'', '';'', ''}''], pos = 4\<rparr>,
           \<lparr>header = False, errlog = 0, box = [\<lparr>cat = DRAWCAT_CPU, args = 24\<rparr>]\<rparr>)"
    by (simp add: val push_box_def)
  from w cat opts tp same have 2: "listed_flags one_bit_flags DRAWCAT_CPU [''day'', ''hour''] = 24"
    by (simp add: val)
  from w tq have 3: "box_def one_bit_flags ?q ?d =
      Inr (\<lparr>toks = [''host'', ''}''], pos = 1\<rparr>,
           \<lparr>header = False, errlog = 0, box = [\<lparr>cat = DRAWCAT_HOST, args = 4\<rparr>]\<rparr>)"
    by (simp add: push_box_def one_bit_flags_def)
  from 1 2 3 show ?thesis by simp
qed

text \<open>
  The claim as the spec states it, for every box definition, fails at the \<^verbatim>\<open>host\<close>
  box: it lists no option keyword, and its options value is \<^verbatim>\<open>HOST_ACCESS\<close>, not the
  empty OR.
\<close>

theorem box_options_union_counterexample:
  "config_parse one_bit_flags (Bytes ''layout { host { host } } ;'') [] =
     Inr \<lparr>urls = [], waittime = 60,
          draw = Some \<lparr>header = False, errlog = 0, box = [\<lparr>cat = DRAWCAT_HOST, args = 4\<rparr>]\<rparr>\<rparr> \<and>
   listed_flags one_bit_flags DRAWCAT_HOST [] = 0"
  by code_simp

text \<open>
  C8. Every box of a successfully parsed configuration is legal: its options hold no bit
  outside the OR of the macros that the table of the spec allows for its category, and
  a \<^verbatim>\<open>host\<close> box holds exactly \<^verbatim>\<open>HOST_ACCESS\<close>. And for every file: when the driver
  reaches a \<^verbatim>\<open>layout\<close> statement, its loop reaches a \<^verbatim>\<open>host\<close> block, and the loop of
  that block reaches a box definition in which, after the category and some of its option
  keywords, a token stands that is neither an option keyword of the category nor
  \<^verbatim>\<open>;\<close> nor \<^verbatim>\<open>}\<close>, the parse of the file fails with UnknownToken; the file
  \<^verbatim>\<open>layout { host { cpu foo; } }\<close> is such a file.
\<close>

theorem boxes_legal:
  "(config_parse fl f argv = Inr cfg \<longrightarrow>
      (\<forall>d b. draw cfg = Some d \<and> b \<in> set (box d) \<longrightarrow> box_legal fl b)) \<and>
   (config_steps fl k \<lparr>toks = ts, pos = 0\<rparr> config_init = Some (p, cfg0) \<and>
    pos p + 2 < toksz p \<and> toks p ! pos p = ''layout'' \<and> toks p ! (pos p + 1) = ''{'' \<and>
    toks p ! (pos p + 2) \<noteq> ''}'' \<and> draw cfg0 = None \<and>
    layout_steps fl i (p\<lparr>pos := pos p + 2\<rparr>) \<lparr>header = False, errlog = 0, box = []\<rparr> =
      Some (q, dq) \<and>
    pos q + 2 < toksz q \<and> toks q ! pos q = ''host'' \<and> toks q ! (pos q + 1) = ''{'' \<and>
    toks q ! (pos q + 2) \<noteq> ''}'' \<and>
    host_steps fl j (q\<lparr>pos := pos q + 2\<rparr>) dq = Some (r, dr) \<and>
    drop (pos r) (toks r) = kw # ks @ t # rest \<and> (kw, c) \<in> set categories \<and>
    (\<forall>k \<in> set ks. option_keyword c k) \<and> \<not> option_keyword c t \<and> t \<noteq> '';'' \<and> t \<noteq> ''}'' \<longrightarrow>
      parse_tokens fl ts argv' = Inl UnknownToken) \<and>
   config_parse fl (Bytes ''layout { host { cpu foo; } }'') argv'' = Inl UnknownToken"
proof (intro conjI impI allI)
  show "config_parse fl (Bytes ''layout { host { cpu foo; } }'') argv'' = Inl UnknownToken"
    by code_simp
next
  fix d b
  assume "config_parse fl f argv = Inr cfg" and "draw cfg = Some d \<and> b \<in> set (box d)"
  with config_parse_legal [of fl f argv cfg] show "box_legal fl b"
    by (auto simp: config_legal_def draw_legal_def)
next
  assume a: "config_steps fl k \<lparr>toks = ts, pos = 0\<rparr> config_init = Some (p, cfg0) \<and>
    pos p + 2 < toksz p \<and> toks p ! pos p = ''layout'' \<and> toks p ! (pos p + 1) = ''{'' \<and>
    toks p ! (pos p + 2) \<noteq> ''}'' \<and> draw cfg0 = None \<and>
    layout_steps fl i (p\<lparr>pos := pos p + 2\<rparr>) \<lparr>header = False, errlog = 0, box = []\<rparr> =
      Some (q, dq) \<and>
    pos q + 2 < toksz q \<and> toks q ! pos q = ''host'' \<and> toks q ! (pos q + 1) = ''{'' \<and>
    toks q ! (pos q + 2) \<noteq> ''}'' \<and>
    host_steps fl j (q\<lparr>pos := pos q + 2\<rparr>) dq = Some (r, dr) \<and>
    drop (pos r) (toks r) = kw # ks @ t # rest \<and> (kw, c) \<in> set categories \<and>
    (\<forall>k \<in> set ks. option_keyword c k) \<and> \<not> option_keyword c t \<and> t \<noteq> '';'' \<and> t \<noteq> ''}''"
  then have reach: "config_steps fl k \<lparr>toks = ts, pos = 0\<rparr> config_init = Some (p, cfg0)"
    and layout: "pos p + 2 < toksz p" "toks p ! pos p = ''layout''" "toks p ! (pos p + 1) = ''{''"
      "toks p ! (pos p + 2) \<noteq> ''}''" "draw cfg0 = None"
    and items: "layout_steps fl i (p\<lparr>pos := pos p + 2\<rparr>) \<lparr>header = False, errlog = 0, box = []\<rparr> =
                  Some (q, dq)"
    and host: "pos q + 2 < toksz q" "toks q ! pos q = ''host''" "toks q ! (pos q + 1) = ''{''"
      "toks q ! (pos q + 2) \<noteq> ''}''"
    and boxes: "host_steps fl j (q\<lparr>pos := pos q + 2\<rparr>) dq = Some (r, dr)"
    and toks: "drop (pos r) (toks r) = kw # ks @ t # rest"
    and cat: "(kw, c) \<in> set categories" and opts: "\<forall>k \<in> set ks. option_keyword c k"
    and bad: "\<not> option_keyword c t" "t \<noteq> '';''" "t \<noteq> ''}''"
    by simp_all
  from box_def_unknown [OF toks cat opts bad, of fl dr] obtain d' where
    bd: "box_def fl r dr = Inl (UnknownToken, r\<lparr>pos := pos r + 1 + length ks\<rparr>, d')" ..
  from cursor_tokens [OF toks] have in_r: "pos r < toksz r" by simp
  from toks have "length (drop (pos r) (toks r)) = length (kw # ks @ t # rest)" by simp
  then have room: "pos r + 1 + length ks < toksz r"
    by (simp add: toksz_def)
  from layout have in_p: "pos p < toksz p" by simp
  from host have in_q: "pos q < toksz q" by simp
  from unknown_in_host_block [OF host boxes bd in_r]
  have "layout_item fl q dq = Inl (UnknownToken, r\<lparr>pos := pos r + 1 + length ks\<rparr>, d')" .
  from unknown_in_layout [OF layout items this in_q]
  have "statement fl p cfg0 =
          Inl (UnknownToken, r\<lparr>pos := pos r + 1 + length ks\<rparr>, cfg0\<lparr>draw := Some d'\<rparr>)" .
  from parse_tokens_fail [OF reach in_p this] room
  show "parse_tokens fl ts argv' = Inl UnknownToken"
    by (simp add: fatal_def)
qed


theorem boxes_legal_witness:
  "box_legal one_bit_flags \<lparr>cat = DRAWCAT_CPU, args = 24\<rparr> \<and>
   box_legal one_bit_flags \<lparr>cat = DRAWCAT_HOST, args = 4\<rparr> \<and>
   parse_tokens one_bit_flags
     [''layout'', ''{'', ''header'', '';'', ''host'', ''{'', ''mem'', ''min'', '';'',
      ''cpu'', ''hour'', ''foo'', '';'', ''}'', ''}'', '';''] [] = Inl UnknownToken"
proof -
  let ?ts = "[''layout'', ''{'', ''header'', '';'', ''host'', ''{'', ''mem'', ''min'', '';'',
              ''cpu'', ''hour'', ''foo'', '';'', ''}'', ''}'', '';'']"
  let ?p = "\<lparr>toks = ?ts, pos = 0\<rparr>"
  let ?q = "\<lparr>toks = ?ts, pos = 4\<rparr>"
  let ?r = "\<lparr>toks = ?ts, pos = 9\<rparr>"
  let ?dq = "\<lparr>header = True, errlog = 0, box = []\<rparr>"
  let ?dr = "\<lparr>header = True, errlog = 0, box = [\<lparr>cat = DRAWCAT_MEM, args = 4\<rparr>]\<rparr>"
  let ?cfg = "\<lparr>urls = [], waittime = 60,
               draw = Some \<lparr>header = False, errlog = 0,
                 box = [\<lparr>cat = DRAWCAT_CPU, args = 24\<rparr>, \<lparr>cat = DRAWCAT_HOST, args = 4\<rparr>]\<rparr>\<rparr>"
  have parsed: "config_parse one_bit_flags
                  (Bytes ''layout { host { cpu hour day ; host } } ;'') [] = Inr ?cfg"
    by code_simp
  have reach: "config_steps one_bit_flags 0 ?p config_init = Some (?p, config_init)"
    by simp
  have layout: "pos ?p + 2 < toksz ?p" "toks ?p ! pos ?p = ''layout''"
    "toks ?p ! (pos ?p + 1) = ''{''" "toks ?p ! (pos ?p + 2) \<noteq> ''}''" "draw config_init = None"
    by (simp_all add: toksz_def config_init_def)
  have items: "layout_steps one_bit_flags 1 (?p\<lparr>pos := pos ?p + 2\<rparr>)
                 \<lparr>header = False, errlog = 0, box = []\<rparr> = Some (?q, ?dq)"
    by code_simp
  have host: "pos ?q + 2 < toksz ?q" "toks ?q ! pos ?q = ''host''"
    "toks ?q ! (pos ?q + 1) = ''{''" "toks ?q ! (pos ?q + 2) \<noteq> ''}''"
    by (simp_all add: toksz_def)
  have boxes: "host_steps one_bit_flags 1 (?q\<lparr>pos := pos ?q + 2\<rparr>) ?dq = Some (?r, ?dr)"
    by code_simp
  have rest: "drop (pos ?r) (toks ?r) = ''cpu'' # [''hour''] @ ''foo'' # ['';'', ''}'', ''}'', '';'']"
    by simp
  have cat: "(''cpu'', DRAWCAT_CPU) \<in> set categories"
    by (simp add: categories_def)
  have opts: "\<forall>k \<in> set [''hour'']. option_keyword DRAWCAT_CPU k"
    by (simp add: option_keyword_def)
  have bad: "\<not> option_keyword DRAWCAT_CPU ''foo''" "''foo'' \<noteq> '';''" "''foo'' \<noteq> ''}''"
    by (simp_all add: option_keyword_def)
  note w = boxes_legal [of one_bit_flags "Bytes ''layout { host { cpu hour day ; host } } ;''"
      "[]" ?cfg 0 ?ts ?p config_init 1 ?q ?dq 1 ?r ?dr "''cpu''" "[''hour'']" "''foo''"
      "['';'', ''}'', ''}'', '';'']" DRAWCAT_CPU "[]"]
  from w parsed have 1: "box_legal one_bit_flags \<lparr>cat = DRAWCAT_CPU, args = 24\<rparr>"
    by simp
  from w parsed have 2: "box_legal one_bit_flags \<lparr>cat = DRAWCAT_HOST, args = 4\<rparr>"
    by simp
  from w reach layout items host boxes rest cat opts bad
  have 3: "parse_tokens one_bit_flags ?ts [] = Inl UnknownToken"
    by blast
  from 1 2 3 show ?thesis by blast
qed

end
